theory Spec2Isabelle
  imports Main "HOL-Library.Char_ord" "HOL-Library.List_Lexorder" "HOL-Library.Product_Lexorder"
begin

section \<open>Strings and Python errors\<close>

text \<open>
  Python strings are modelled as \<open>string\<close> (lists of 8-bit characters); \<open>str.lower\<close> is
  modelled on the ASCII letters. The exceptions the code can raise are values of \<open>error\<close>:
  a failed dictionary subscript is \<open>KeyError\<close>, a failed \<open>int(...)\<close> is \<open>ValueError\<close>.
\<close>

datatype error = KeyError | ValueError

definition startswith :: "string \<Rightarrow> string \<Rightarrow> bool" where
  "startswith s p = (take (length p) s = p)"

definition lower_char :: "char \<Rightarrow> char" where
  "lower_char c =
     (let n = (of_char c :: nat) in if 65 \<le> n \<and> n \<le> 90 then char_of (n + 32) else c)"

definition lower :: "string \<Rightarrow> string" where
  "lower s = map lower_char s"

text \<open>\<open>s.rsplit("/")[-1]\<close>: the part of \<open>s\<close> after its last slash (all of \<open>s\<close> when it has none).\<close>

definition rsplit_last :: "string \<Rightarrow> string" where
  "rsplit_last s = rev (takeWhile (\<lambda>c. c \<noteq> CHR ''/'') (rev s))"

section \<open>The schema model\<close>

text \<open>
  Modelled from the spec: the classes of the model (\<open>Namespace\<close>, \<open>Class\<close>, \<open>Property\<close>,
  \<open>Vocabulary\<close>, \<open>Datatype\<close>, \<open>Individual\<close>, \<open>Model\<close>) are declared outside the two source
  files; the records below follow section 3 of the specification and the attributes that
  \<open>rdf.py\<close> reads. Ordered dictionaries are association lists in insertion order, looked
  up with \<open>map_of\<close>; metadata dictionaries, which are only subscripted, are maps. An
  optional summary is \<open>None\<close> or a text; Python treats both \<open>None\<close> and the empty text as false.
\<close>

record namespace =
  ns_name :: string

record class_property =
  fqname :: string
  minCount :: string
  maxCount :: string

record spdx_class =
  c_name :: string
  c_ns :: namespace
  c_iri :: string
  c_summary :: "string option"
  c_metadata :: "string \<rightharpoonup> string"
  c_properties :: "(string \<times> class_property) list"

record spdx_property =
  p_name :: string
  p_ns :: namespace
  p_iri :: string
  p_summary :: "string option"
  p_metadata :: "string \<rightharpoonup> string"

record vocabulary =
  v_name :: string
  v_ns :: namespace
  v_iri :: string
  v_summary :: "string option"
  v_entries :: "(string \<times> string) list"

record datatype_def =
  d_name :: string
  d_ns :: namespace
  d_iri :: string
  d_metadata :: "string \<rightharpoonup> string"
  d_format :: "string \<rightharpoonup> string"

record individual =
  i_name :: string
  i_ns :: namespace
  i_iri :: string
  i_summary :: "string option"
  i_metadata :: "string \<rightharpoonup> string"

datatype entity = ClassE spdx_class | VocabularyE vocabulary | DatatypeE datatype_def

fun entity_iri :: "entity \<Rightarrow> string" where
  "entity_iri (ClassE c) = c_iri c"
| "entity_iri (VocabularyE v) = v_iri v"
| "entity_iri (DatatypeE d) = d_iri d"

record model =
  classes :: "(string \<times> spdx_class) list"
  properties :: "(string \<times> spdx_property) list"
  vocabularies :: "(string \<times> vocabulary) list"
  model_datatypes :: "(string \<times> datatype_def) list"
  individuals :: "(string \<times> individual) list"
  types :: "(string \<times> entity) list"


section \<open>Parent lookup and the inheritance walk\<close>

text \<open>
  \<open>get_parent\<close> (rdf.py, lines 57-62): no parent when \<open>SubclassOf\<close> is absent or empty;
  otherwise the subscript \<open>model.classes[pns+parent]\<close>, which raises \<open>KeyError\<close> on a
  missing key.
\<close>

definition get_parent :: "spdx_class \<Rightarrow> model \<Rightarrow> error + spdx_class option" where
  "get_parent c m =
     (case c_metadata c ''SubclassOf'' of
        None \<Rightarrow> Inr None
      | Some parent \<Rightarrow>
          if parent = [] then Inr None
          else
            (let pns = (if startswith parent ''/'' then [] else ''/'' @ ns_name (c_ns c) @ ''/'')
             in case map_of (classes m) (pns @ parent) of
                  None \<Rightarrow> Inl KeyError
                | Some p \<Rightarrow> Inr (Some p)))"

text \<open>
  The inner loop of lines 92-98: every declared property of the class is visited, and each
  one of nature \<open>IdProperty\<close> overwrites \<open>id_property\<close>; the loop has no \<open>break\<close>.
\<close>

definition id_display_name :: "string \<Rightarrow> spdx_property \<Rightarrow> string" where
  "id_display_name fqprop pr =
     (let id_property = rsplit_last fqprop
      in if ns_name (p_ns pr) \<noteq> ''Core''
         then lower (ns_name (p_ns pr)) @ ''_'' @ id_property
         else id_property)"

fun id_scan :: "model \<Rightarrow> (string \<times> class_property) list \<Rightarrow> string option \<Rightarrow> error + string option" where
  "id_scan m [] id_property = Inr id_property"
| "id_scan m ((p, cp) # ps) id_property =
     (case map_of (properties m) (fqname cp) of
        None \<Rightarrow> Inl KeyError
      | Some pr \<Rightarrow>
          (case p_metadata pr ''Nature'' of
             None \<Rightarrow> Inl KeyError
           | Some nature \<Rightarrow>
               id_scan m ps
                 (if nature = ''IdProperty'' then Some (id_display_name (fqname cp) pr)
                  else id_property)))"

text \<open>One iteration of the \<open>while\<close> loop (lines 88-98) on the pair (referenceable, id_property).\<close>

definition walk_step ::
  "model \<Rightarrow> spdx_class \<Rightarrow> string option \<times> string option \<Rightarrow> error + (string option \<times> string option)" where
  "walk_step m parent st =
     (let referenceable =
            (if fst st = None \<and> c_metadata parent ''Referenceable'' \<noteq> None
             then c_metadata parent ''Referenceable'' else fst st)
      in if snd st = None \<and> c_properties parent \<noteq> []
         then (case id_scan m (c_properties parent) (snd st) of
                 Inl e \<Rightarrow> Inl e
               | Inr id_property \<Rightarrow> Inr (referenceable, id_property))
         else Inr (referenceable, snd st))"

text \<open>
  The \<open>while parent:\<close> loop of lines 86-100. It has no cycle check, so it need not
  terminate: \<open>None\<close> is the run that never returns, \<open>Some (Inl e)\<close> a raised exception.
\<close>

partial_function (option) walk ::
  "model \<Rightarrow> spdx_class \<Rightarrow> string option \<times> string option
     \<Rightarrow> (error + (string option \<times> string option)) option" where
  "walk m parent st =
     (case walk_step m parent st of
        Inl e \<Rightarrow> Some (Inl e)
      | Inr st' \<Rightarrow>
          (case get_parent parent m of
             Inl e \<Rightarrow> Some (Inl e)
           | Inr None \<Rightarrow> Some (Inr st')
           | Inr (Some p) \<Rightarrow> walk m p st'))"

text \<open>Lines 84-103: the walk from the class itself, then the default \<open>"optional"\<close>.\<close>

definition resolve_inherited :: "model \<Rightarrow> spdx_class \<Rightarrow> (error + (string \<times> string option)) option" where
  "resolve_inherited m c =
     (case walk m c (None, None) of
        None \<Rightarrow> None
      | Some (Inl e) \<Rightarrow> Some (Inl e)
      | Some (Inr (referenceable, id_property)) \<Rightarrow>
          Some (Inr (case referenceable of None \<Rightarrow> ''optional'' | Some r \<Rightarrow> r, id_property)))"

section \<open>Ancestor chains\<close>

text \<open>
  \<open>chain m c cs\<close>: following \<open>get_parent\<close> from \<open>c\<close> visits exactly the classes \<open>cs\<close> and
  ends at a class with no parent reference; such a chain is finite and has no cycle.
\<close>

inductive chain :: "model \<Rightarrow> spdx_class \<Rightarrow> spdx_class list \<Rightarrow> bool" where
  chain_root: "get_parent c m = Inr None \<Longrightarrow> chain m c [c]"
| chain_step: "get_parent c m = Inr (Some p) \<Longrightarrow> chain m p cs \<Longrightarrow> chain m c (c # cs)"

text \<open>The loop body applied along a list of classes, stopping at the first exception.\<close>

fun walk_list ::
  "model \<Rightarrow> spdx_class list \<Rightarrow> string option \<times> string option \<Rightarrow> error + (string option \<times> string option)" where
  "walk_list m [] st = Inr st"
| "walk_list m (a # as) st =
     (case walk_step m a st of Inl e \<Rightarrow> Inl e | Inr st' \<Rightarrow> walk_list m as st')"

text \<open>
  The specification's words, for comparison with the walk: the namespace-qualified display
  name (bare in the root namespace \<open>Core\<close>, otherwise the lower-cased namespace name, an
  underscore and the local name, which is the last path segment of the declared
  fully-qualified name); the display names of the properties of nature \<open>IdProperty\<close> that
  a list of declared properties holds, in declaration order; the
  \<open>Referenceable\<close> value of the nearest class of a chain that declares one; and the
  identifying-property name of the first class of a chain that declares such a property.
\<close>

definition qualified_display_name :: "string \<Rightarrow> string \<Rightarrow> string" where
  "qualified_display_name nsn local_name =
     (if nsn = ''Core'' then local_name else lower nsn @ ''_'' @ local_name)"

definition id_names :: "model \<Rightarrow> (string \<times> class_property) list \<Rightarrow> string list" where
  "id_names m ps =
     concat (map (\<lambda>(p, cp).
        case map_of (properties m) (fqname cp) of
          None \<Rightarrow> []
        | Some pr \<Rightarrow>
            if p_metadata pr ''Nature'' = Some ''IdProperty''
            then [qualified_display_name (ns_name (p_ns pr)) (rsplit_last (fqname cp))]
            else []) ps)"

definition nearest_referenceable :: "spdx_class list \<Rightarrow> string" where
  "nearest_referenceable cs =
     (case List.map_filter (\<lambda>a. c_metadata a ''Referenceable'') cs of
        [] \<Rightarrow> ''optional''
      | r # _ \<Rightarrow> r)"

definition first_id_name :: "model \<Rightarrow> spdx_class list \<Rightarrow> string option" where
  "first_id_name m cs =
     (case filter (\<lambda>a. id_names m (c_properties a) \<noteq> []) cs of
        [] \<Rightarrow> None
      | a # _ \<Rightarrow> Some (last (id_names m (c_properties a))))"

text \<open>Reachability along parent references, for the statement of termination.\<close>

definition parent_of :: "model \<Rightarrow> spdx_class \<Rightarrow> spdx_class \<Rightarrow> bool" where
  "parent_of m c p = (get_parent c m = Inr (Some p))"

text \<open>The parent edges below a class \<open>c\<close>, oriented from parent to child.\<close>

definition up_rel :: "model \<Rightarrow> spdx_class \<Rightarrow> (spdx_class \<times> spdx_class) set" where
  "up_rel m c = {(p, d). (parent_of m)\<^sup>*\<^sup>* c d \<and> parent_of m d p}"

section \<open>Scenario A\<close>

definition core :: namespace where
  "core = \<lparr>ns_name = ''Core''\<rparr>"

definition name_property :: spdx_property where
  "name_property =
     \<lparr>p_name = ''name'', p_ns = core, p_iri = ''https://rdf.spdx.org/v3/Core/name'',
      p_summary = None,
      p_metadata = [''Nature'' \<mapsto> ''IdProperty'', ''Range'' \<mapsto> ''xsd:string'']\<rparr>"

definition agent :: spdx_class where
  "agent =
     \<lparr>c_name = ''Agent'', c_ns = core, c_iri = ''https://rdf.spdx.org/v3/Core/Agent'',
      c_summary = None, c_metadata = [''Referenceable'' \<mapsto> ''yes''],
      c_properties = [(''name'', \<lparr>fqname = ''/Core/name'', minCount = ''1'', maxCount = ''1''\<rparr>)]\<rparr>"

definition person :: spdx_class where
  "person =
     \<lparr>c_name = ''Person'', c_ns = core, c_iri = ''https://rdf.spdx.org/v3/Core/Person'',
      c_summary = None, c_metadata = [''SubclassOf'' \<mapsto> ''Agent''],
      c_properties = []\<rparr>"

definition scenario_A :: model where
  "scenario_A =
     \<lparr>classes = [(''/Core/Agent'', agent), (''/Core/Person'', person)],
      properties = [(''/Core/name'', name_property)],
      vocabularies = [], model_datatypes = [], individuals = [], types = []\<rparr>"

section \<open>A class with two identifying properties\<close>

definition software :: namespace where
  "software = \<lparr>ns_name = ''Software''\<rparr>"

definition key_a :: spdx_property where
  "key_a =
     \<lparr>p_name = ''a'', p_ns = core, p_iri = ''https://rdf.spdx.org/v3/Core/a'',
      p_summary = None,
      p_metadata = [''Nature'' \<mapsto> ''IdProperty'', ''Range'' \<mapsto> ''xsd:string'']\<rparr>"

definition key_b :: spdx_property where
  "key_b =
     \<lparr>p_name = ''b'', p_ns = software, p_iri = ''https://rdf.spdx.org/v3/Software/b'',
      p_summary = None,
      p_metadata = [''Nature'' \<mapsto> ''IdProperty'', ''Range'' \<mapsto> ''xsd:string'']\<rparr>"

definition thing :: spdx_class where
  "thing =
     \<lparr>c_name = ''Thing'', c_ns = core, c_iri = ''https://rdf.spdx.org/v3/Core/Thing'',
      c_summary = None, c_metadata = Map.empty,
      c_properties =
        [(''a'', \<lparr>fqname = ''/Core/a'', minCount = ''1'', maxCount = ''1''\<rparr>),
         (''b'', \<lparr>fqname = ''/Software/b'', minCount = ''1'', maxCount = ''1''\<rparr>)]\<rparr>"

definition two_ids :: model where
  "two_ids =
     \<lparr>classes = [(''/Core/Thing'', thing)],
      properties = [(''/Core/a'', key_a), (''/Software/b'', key_b)],
      vocabularies = [], model_datatypes = [], individuals = [], types = []\<rparr>"

section \<open>The statement graph\<close>

text \<open>
  Nodes of the graph library: IRIs, blank nodes, and literals (a text with an optional
  language tag, or an integer). \<open>BNode()\<close> returns a fresh blank node; the model numbers
  them with a counter. A graph is a set of triples that remembers insertion order: a
  list without repetitions, to which \<open>add\<close> appends a triple that is not yet there.
\<close>

datatype node = URIRef string | BNode nat | Literal string "string option" | IntLiteral int

type_synonym triple = "node \<times> node \<times> node"

definition graph_add :: "triple list \<Rightarrow> triple \<Rightarrow> triple list" where
  "graph_add g t = (if t \<in> set g then g else g @ [t])"

definition graph_add_all :: "triple list \<Rightarrow> triple list \<Rightarrow> triple list" where
  "graph_add_all g ts = foldl graph_add g ts"

definition URI_BASE :: string where
  "URI_BASE = ''https://rdf.spdx.org/v3/''"

definition RDF_type :: node where
  "RDF_type = URIRef ''http://www.w3.org/1999/02/22-rdf-syntax-ns#type''"
definition RDF_Property :: node where
  "RDF_Property = URIRef ''http://www.w3.org/1999/02/22-rdf-syntax-ns#Property''"
definition RDFS_Class :: node where
  "RDFS_Class = URIRef ''http://www.w3.org/2000/01/rdf-schema#Class''"
definition RDFS_comment :: node where
  "RDFS_comment = URIRef ''http://www.w3.org/2000/01/rdf-schema#comment''"
definition RDFS_subClassOf :: node where
  "RDFS_subClassOf = URIRef ''http://www.w3.org/2000/01/rdf-schema#subClassOf''"
definition RDFS_range :: node where
  "RDFS_range = URIRef ''http://www.w3.org/2000/01/rdf-schema#range''"
definition RDFS_label :: node where
  "RDFS_label = URIRef ''http://www.w3.org/2000/01/rdf-schema#label''"
definition OWL_Ontology :: node where
  "OWL_Ontology = URIRef ''http://www.w3.org/2002/07/owl#Ontology''"
definition OWL_versionIRI :: node where
  "OWL_versionIRI = URIRef ''http://www.w3.org/2002/07/owl#versionIRI''"
definition OWL_Class :: node where
  "OWL_Class = URIRef ''http://www.w3.org/2002/07/owl#Class''"
definition OWL_ObjectProperty :: node where
  "OWL_ObjectProperty = URIRef ''http://www.w3.org/2002/07/owl#ObjectProperty''"
definition OWL_DatatypeProperty :: node where
  "OWL_DatatypeProperty = URIRef ''http://www.w3.org/2002/07/owl#DatatypeProperty''"
definition OWL_NamedIndividual :: node where
  "OWL_NamedIndividual = URIRef ''http://www.w3.org/2002/07/owl#NamedIndividual''"
definition OWL_sameAs :: node where
  "OWL_sameAs = URIRef ''http://www.w3.org/2002/07/owl#sameAs''"
definition SH_NodeShape :: node where
  "SH_NodeShape = URIRef ''http://www.w3.org/ns/shacl#NodeShape''"
definition SH_property :: node where
  "SH_property = URIRef ''http://www.w3.org/ns/shacl#property''"
definition SH_path :: node where
  "SH_path = URIRef ''http://www.w3.org/ns/shacl#path''"
definition SH_class :: node where
  "SH_class = URIRef ''http://www.w3.org/ns/shacl#class''"
definition SH_pattern :: node where
  "SH_pattern = URIRef ''http://www.w3.org/ns/shacl#pattern''"
definition SH_datatype :: node where
  "SH_datatype = URIRef ''http://www.w3.org/ns/shacl#datatype''"
definition SH_minCount :: node where
  "SH_minCount = URIRef ''http://www.w3.org/ns/shacl#minCount''"
definition SH_maxCount :: node where
  "SH_maxCount = URIRef ''http://www.w3.org/ns/shacl#maxCount''"
definition SPDXS_referenceable :: node where
  "SPDXS_referenceable = URIRef ''https://rdf.spdx.org/ns/schema#referenceable''"
definition SPDXS_idPropertyName :: node where
  "SPDXS_idPropertyName = URIRef ''https://rdf.spdx.org/ns/schema#idPropertyName''"

section \<open>Integer parsing\<close>

text \<open>
  \<open>int(s)\<close> on a text, for ASCII input: surrounding whitespace is dropped, one sign is
  allowed, then decimal digits, with single underscores between digits; anything else
  raises \<open>ValueError\<close>.
\<close>

definition is_space :: "char \<Rightarrow> bool" where
  "is_space c = (let n = (of_char c :: nat) in n = 32 \<or> (9 \<le> n \<and> n \<le> 13) \<or> (28 \<le> n \<and> n \<le> 31))"

definition is_digit :: "char \<Rightarrow> bool" where
  "is_digit c = (let n = (of_char c :: nat) in 48 \<le> n \<and> n \<le> 57)"

definition digit_val :: "char \<Rightarrow> nat" where
  "digit_val c = of_char c - 48"

definition strip :: "string \<Rightarrow> string" where
  "strip s = rev (dropWhile is_space (rev (dropWhile is_space s)))"

fun py_digits :: "bool \<Rightarrow> nat \<Rightarrow> string \<Rightarrow> nat option" where
  "py_digits prev acc [] = (if prev then Some acc else None)"
| "py_digits prev acc (c # cs) =
     (if is_digit c then py_digits True (10 * acc + digit_val c) cs
      else if c = CHR ''_'' \<and> prev then py_digits False acc cs
      else None)"

definition py_int :: "string \<Rightarrow> error + int" where
  "py_int s =
     (case strip s of
        [] \<Rightarrow> Inl ValueError
      | c # cs \<Rightarrow>
          if c = CHR ''-'' then
            (case py_digits False 0 cs of None \<Rightarrow> Inl ValueError | Some n \<Rightarrow> Inr (- int n))
          else if c = CHR ''+'' then
            (case py_digits False 0 cs of None \<Rightarrow> Inl ValueError | Some n \<Rightarrow> Inr (int n))
          else
            (case py_digits False 0 (c # cs) of None \<Rightarrow> Inl ValueError | Some n \<Rightarrow> Inr (int n)))"

section \<open>The XSD range mapper\<close>

text \<open>
  \<open>xsd_range\<close> (lines 50-55) returns the datatype IRI, or \<open>None\<close> after logging one
  warning; the model returns the result together with the messages logged.
\<close>

definition xsd_range :: "string \<Rightarrow> string \<Rightarrow> node option \<times> string list" where
  "xsd_range rng propname =
     (if startswith rng ''xsd:''
      then (Some (URIRef (''http://www.w3.org/2001/XMLSchema#'' @ drop 4 rng)), [])
      else (None, [''Uknown namespace in range <'' @ rng @ ''> of property '' @ propname]))"

section \<open>Emission for classes\<close>

text \<open>
  \<open>if x.summary: g.add((node, RDFS.comment, Literal(x.summary, lang='en')))\<close>: nothing for
  \<open>None\<close> and for the empty text, which Python both treats as false.
\<close>

definition comment_stmts :: "node \<Rightarrow> string option \<Rightarrow> triple list" where
  "comment_stmts node summary =
     (case summary of
        None \<Rightarrow> []
      | Some s \<Rightarrow> if s = [] then [] else [(node, RDFS_comment, Literal s (Some ''en''))])"

text \<open>
  Lines 119-143: the range of a declared property, as constraints on the blank node of
  its property shape.
\<close>

definition shape_range ::
  "model \<Rightarrow> node \<Rightarrow> spdx_property \<Rightarrow> string \<Rightarrow> error + (triple list \<times> string list)" where
  "shape_range m bnode pr prop_rng =
     (let typename =
            (if CHR '':'' \<notin> set prop_rng
             then (if startswith prop_rng ''/'' then [] else ''/'' @ ns_name (p_ns pr) @ ''/'') @ prop_rng
             else prop_rng)
      in case map_of (classes m) typename of
           Some dt \<Rightarrow> Inr ([(bnode, SH_class, URIRef (c_iri dt))], [])
         | None \<Rightarrow>
             (case map_of (vocabularies m) typename of
                Some dt \<Rightarrow> Inr ([(bnode, SH_class, URIRef (v_iri dt))], [])
              | None \<Rightarrow>
                  (case map_of (model_datatypes m) typename of
                     Some dt \<Rightarrow>
                       (let pat = (case d_format dt ''pattern'' of
                                     Some x \<Rightarrow> [(bnode, SH_pattern, Literal x None)]
                                   | None \<Rightarrow> [])
                        in case d_metadata dt ''SubclassOf'' of
                             None \<Rightarrow> Inl KeyError
                           | Some sub \<Rightarrow>
                               (case xsd_range sub (p_iri pr) of
                                  (Some t, lg) \<Rightarrow> Inr (pat @ [(bnode, SH_datatype, t)], lg)
                                | (None, lg) \<Rightarrow> Inr (pat, lg)))
                   | None \<Rightarrow>
                       (case xsd_range typename (p_iri pr) of
                          (Some t, lg) \<Rightarrow> Inr ([(bnode, SH_datatype, t)], lg)
                        | (None, lg) \<Rightarrow> Inr ([], lg)))))"

text \<open>Lines 146-151: the cardinality constraints.\<close>

definition shape_counts :: "node \<Rightarrow> class_property \<Rightarrow> error + triple list" where
  "shape_counts bnode cp =
     (case py_int (minCount cp) of
        Inl e \<Rightarrow> Inl e
      | Inr mincount \<Rightarrow>
          (let mn = (if mincount \<noteq> 0 then [(bnode, SH_minCount, IntLiteral mincount)] else [])
           in if maxCount cp \<noteq> ''*''
              then (case py_int (maxCount cp) of
                      Inl e \<Rightarrow> Inl e
                    | Inr maxcount \<Rightarrow> Inr (mn @ [(bnode, SH_maxCount, IntLiteral maxcount)]))
              else Inr mn))"

text \<open>Lines 116-151: the property shape of one declared, non-identifying property.\<close>

definition property_shape ::
  "model \<Rightarrow> node \<Rightarrow> node \<Rightarrow> spdx_property \<Rightarrow> class_property \<Rightarrow> error + (triple list \<times> string list)" where
  "property_shape m node bnode pr cp =
     (case p_metadata pr ''Range'' of
        None \<Rightarrow> Inl KeyError
      | Some prop_rng \<Rightarrow>
          (case shape_range m bnode pr prop_rng of
             Inl e \<Rightarrow> Inl e
           | Inr (rs, lg) \<Rightarrow>
               (case shape_counts bnode cp of
                  Inl e \<Rightarrow> Inl e
                | Inr cs \<Rightarrow>
                    Inr ([(node, SH_property, bnode), (bnode, SH_path, URIRef (p_iri pr))] @ rs @ cs,
                         lg))))"

text \<open>
  The loop of lines 110-151 over the declared properties; \<open>k\<close> counts the blank nodes
  created so far. A property of nature \<open>IdProperty\<close> is skipped (\<open>continue\<close>).
\<close>

fun class_shapes ::
  "model \<Rightarrow> node \<Rightarrow> (string \<times> class_property) list \<Rightarrow> nat
     \<Rightarrow> error + (triple list \<times> string list \<times> nat)" where
  "class_shapes m node [] k = Inr ([], [], k)"
| "class_shapes m node ((p, cp) # ps) k =
     (case map_of (properties m) (fqname cp) of
        None \<Rightarrow> Inl KeyError
      | Some pr \<Rightarrow>
          (case p_metadata pr ''Nature'' of
             None \<Rightarrow> Inl KeyError
           | Some nature \<Rightarrow>
               if nature = ''IdProperty'' then class_shapes m node ps k
               else
                 (case property_shape m node (BNode k) pr cp of
                    Inl e \<Rightarrow> Inl e
                  | Inr (ts, lg) \<Rightarrow>
                      (case class_shapes m node ps (Suc k) of
                         Inl e \<Rightarrow> Inl e
                       | Inr (ts', lg', k') \<Rightarrow> Inr (ts @ ts', lg @ lg', k')))))"

text \<open>
  Lines 75-151: everything emitted for one class. The result is \<open>None\<close> when the
  inheritance walk does not return.
\<close>

definition class_stmts ::
  "model \<Rightarrow> spdx_class \<Rightarrow> nat \<Rightarrow> (error + (triple list \<times> string list \<times> nat)) option" where
  "class_stmts m c k =
     (let node = URIRef (c_iri c);
          head = [(node, RDF_type, RDFS_Class), (node, RDF_type, OWL_Class)] @
                 comment_stmts node (c_summary c)
      in case get_parent c m of
           Inl e \<Rightarrow> Some (Inl e)
         | Inr parent \<Rightarrow>
             (let sub = (case parent of
                           Some p \<Rightarrow> [(node, RDFS_subClassOf, URIRef (c_iri p))]
                         | None \<Rightarrow> [])
              in case resolve_inherited m c of
                   None \<Rightarrow> None
                 | Some (Inl e) \<Rightarrow> Some (Inl e)
                 | Some (Inr (referenceable, id_property)) \<Rightarrow>
                     (let inh = (node, SPDXS_referenceable, Literal referenceable None) #
                                (case id_property of
                                   Some i \<Rightarrow> [(node, SPDXS_idPropertyName, Literal i None)]
                                 | None \<Rightarrow> [])
                      in if c_properties c \<noteq> []
                         then (case class_shapes m node (c_properties c) k of
                                 Inl e \<Rightarrow> Some (Inl e)
                               | Inr (ts, lg, k') \<Rightarrow>
                                   Some (Inr (head @ sub @ inh @
                                              (node, RDF_type, SH_NodeShape) # ts, lg, k')))
                         else Some (Inr (head @ sub @ inh, [], k)))))"

fun classes_loop ::
  "model \<Rightarrow> (string \<times> spdx_class) list \<Rightarrow> nat
     \<Rightarrow> (error + (triple list \<times> string list \<times> nat)) option" where
  "classes_loop m [] k = Some (Inr ([], [], k))"
| "classes_loop m ((fq, c) # cs) k =
     (case class_stmts m c k of
        None \<Rightarrow> None
      | Some (Inl e) \<Rightarrow> Some (Inl e)
      | Some (Inr (ts, lg, k')) \<Rightarrow>
          (case classes_loop m cs k' of
             None \<Rightarrow> None
           | Some (Inl e) \<Rightarrow> Some (Inl e)
           | Some (Inr (ts', lg', k'')) \<Rightarrow> Some (Inr (ts @ ts', lg @ lg', k''))))"

section \<open>Emission for properties, vocabularies and individuals\<close>

text \<open>A loop that collects the statements and messages of every item, up to the first exception.\<close>

fun collect ::
  "('a \<Rightarrow> error + (triple list \<times> string list)) \<Rightarrow> 'a list \<Rightarrow> error + (triple list \<times> string list)" where
  "collect f [] = Inr ([], [])"
| "collect f (x # xs) =
     (case f x of
        Inl e \<Rightarrow> Inl e
      | Inr (ts, lg) \<Rightarrow>
          (case collect f xs of
             Inl e \<Rightarrow> Inl e
           | Inr (ts', lg') \<Rightarrow> Inr (ts @ ts', lg @ lg')))"

text \<open>Lines 166-180: the range statement of a property.\<close>

definition property_range ::
  "model \<Rightarrow> node \<Rightarrow> spdx_property \<Rightarrow> string \<Rightarrow> error + (triple list \<times> string list)" where
  "property_range m node p rng =
     (if CHR '':'' \<in> set rng then
        (case xsd_range rng (p_name p) of
           (Some t, lg) \<Rightarrow> Inr ([(node, RDFS_range, t)], lg)
         | (None, lg) \<Rightarrow> Inr ([], lg))
      else
        (let typename = (if startswith rng ''/'' then [] else ''/'' @ ns_name (p_ns p) @ ''/'') @ rng
         in case map_of (model_datatypes m) typename of
              Some dt \<Rightarrow>
                (case d_metadata dt ''SubclassOf'' of
                   None \<Rightarrow> Inl KeyError
                 | Some sub \<Rightarrow>
                     (case xsd_range sub (p_name p) of
                        (Some t, lg) \<Rightarrow> Inr ([(node, RDFS_range, t)], lg)
                      | (None, lg) \<Rightarrow> Inr ([], lg)))
            | None \<Rightarrow>
                (case map_of (types m) typename of
                   None \<Rightarrow> Inl KeyError
                 | Some dt \<Rightarrow> Inr ([(node, RDFS_range, URIRef (entity_iri dt))], []))))"

text \<open>Lines 155-180: everything emitted for one property.\<close>

definition property_stmts :: "model \<Rightarrow> spdx_property \<Rightarrow> error + (triple list \<times> string list)" where
  "property_stmts m p =
     (case p_metadata p ''Nature'' of
        None \<Rightarrow> Inl KeyError
      | Some nature \<Rightarrow>
          if nature = ''IdProperty'' then Inr ([], [])
          else
            (let node = URIRef (p_iri p);
                 head = (node, RDF_type, RDF_Property) # comment_stmts node (p_summary p) @
                        (if nature = ''ObjectProperty'' then [(node, RDF_type, OWL_ObjectProperty)]
                         else if nature = ''DataProperty'' then [(node, RDF_type, OWL_DatatypeProperty)]
                         else [])
             in case p_metadata p ''Range'' of
                  None \<Rightarrow> Inl KeyError
                | Some rng \<Rightarrow>
                    (case property_range m node p rng of
                       Inl e \<Rightarrow> Inl e
                     | Inr (ts, lg) \<Rightarrow> Inr (head @ ts, lg))))"

text \<open>Lines 183-193: a vocabulary and its entries.\<close>

definition entry_stmts :: "vocabulary \<Rightarrow> string \<times> string \<Rightarrow> triple list" where
  "entry_stmts v ed =
     (let node = URIRef (v_iri v); enode = URIRef (v_iri v @ ''/'' @ fst ed)
      in [(enode, RDF_type, OWL_NamedIndividual), (enode, RDF_type, node),
          (enode, RDFS_label, Literal (fst ed) None),
          (enode, RDFS_comment, Literal (snd ed) (Some ''en''))])"

definition vocabulary_stmts :: "vocabulary \<Rightarrow> triple list" where
  "vocabulary_stmts v =
     (let node = URIRef (v_iri v)
      in [(node, RDF_type, RDFS_Class), (node, RDF_type, OWL_Class)] @
         comment_stmts node (v_summary v) @
         concat (map (entry_stmts v) (v_entries v)))"

text \<open>Lines 196-207: a named individual.\<close>

definition individual_stmts :: "model \<Rightarrow> individual \<Rightarrow> error + (triple list \<times> string list)" where
  "individual_stmts m i =
     (let node = URIRef (i_iri i);
          head = (node, RDF_type, OWL_NamedIndividual) # comment_stmts node (i_summary i)
      in case i_metadata i ''type'' of
           None \<Rightarrow> Inl KeyError
         | Some typ \<Rightarrow>
             (let typename = (if startswith typ ''/'' then [] else ''/'' @ ns_name (i_ns i) @ ''/'') @ typ
              in case map_of (types m) typename of
                   None \<Rightarrow> Inl KeyError
                 | Some dt \<Rightarrow>
                     Inr (head @ [(node, RDFS_range, URIRef (entity_iri dt))] @
                          (case i_metadata i ''IRI'' of
                             None \<Rightarrow> []
                           | Some custom_iri \<Rightarrow>
                               if custom_iri = [] then [] else [(node, OWL_sameAs, URIRef custom_iri)]),
                          [])))"

section \<open>The ontology graph builder\<close>

text \<open>
  \<open>gen_rdf_ontology\<close> (lines 64-209). The outcome is \<open>None\<close> when an inheritance walk does
  not return, \<open>Some (Inl e)\<close> when an exception is raised, and otherwise the graph
  together with the messages logged.
\<close>

definition ontology_header :: "triple list" where
  "ontology_header =
     [(URIRef URI_BASE, RDF_type, OWL_Ontology), (URIRef URI_BASE, OWL_versionIRI, URIRef URI_BASE)]"

definition gen_rdf_ontology :: "model \<Rightarrow> (error + (triple list \<times> string list)) option" where
  "gen_rdf_ontology m =
     (case classes_loop m (classes m) 0 of
        None \<Rightarrow> None
      | Some (Inl e) \<Rightarrow> Some (Inl e)
      | Some (Inr (cts, clg, k)) \<Rightarrow>
          (case collect (property_stmts m) (map snd (properties m)) of
             Inl e \<Rightarrow> Some (Inl e)
           | Inr (pts, plg) \<Rightarrow>
               (let vts = concat (map (vocabulary_stmts \<circ> snd) (vocabularies m))
                in case collect (individual_stmts m) (map snd (individuals m)) of
                     Inl e \<Rightarrow> Some (Inl e)
                   | Inr (its, ilg) \<Rightarrow>
                       Some (Inr (graph_add_all [] (ontology_header @ cts @ pts @ vts @ its),
                                  clg @ plg @ ilg)))))"

text \<open>The run returns a graph that holds the triple \<open>t\<close>.\<close>

definition graph_has :: "model \<Rightarrow> triple \<Rightarrow> bool" where
  "graph_has m t =
     (case gen_rdf_ontology m of Some (Inr (g, lg)) \<Rightarrow> t \<in> set g | _ \<Rightarrow> False)"

text \<open>
  The specification's words: the declared properties of a class that are not identifying
  properties, in declaration order.
\<close>

definition non_id_properties ::
  "model \<Rightarrow> (string \<times> class_property) list \<Rightarrow> (string \<times> class_property) list" where
  "non_id_properties m ps =
     filter (\<lambda>(p, cp).
        case map_of (properties m) (fqname cp) of
          None \<Rightarrow> True
        | Some pr \<Rightarrow> p_metadata pr ''Nature'' \<noteq> Some ''IdProperty'') ps"

text \<open>The objects of the \<open>sh:property\<close> statements of a node, in the order of the list.\<close>

definition shape_nodes :: "triple list \<Rightarrow> node \<Rightarrow> node list" where
  "shape_nodes ts node =
     map (snd \<circ> snd) (filter (\<lambda>t. fst t = node \<and> fst (snd t) = SH_property) ts)"

section \<open>A small catalogue model\<close>

text \<open>
  One class \<open>Item\<close> with an identifying property and two data properties, and the
  properties of Scenario B (\<open>label\<close>), of Scenario C (\<open>color\<close>, of range \<open>xsd:hue\<close>) and one
  whose range has another prefix (\<open>tint\<close>).
\<close>

definition label_property :: spdx_property where
  "label_property =
     \<lparr>p_name = ''label'', p_ns = core, p_iri = ''https://rdf.spdx.org/v3/Core/label'',
      p_summary = None,
      p_metadata = [''Nature'' \<mapsto> ''DataProperty'', ''Range'' \<mapsto> ''xsd:string'']\<rparr>"

definition color_property :: spdx_property where
  "color_property =
     \<lparr>p_name = ''color'', p_ns = core, p_iri = ''https://rdf.spdx.org/v3/Core/color'',
      p_summary = None,
      p_metadata = [''Nature'' \<mapsto> ''DataProperty'', ''Range'' \<mapsto> ''xsd:hue'']\<rparr>"

definition tint_property :: spdx_property where
  "tint_property =
     \<lparr>p_name = ''tint'', p_ns = core, p_iri = ''https://rdf.spdx.org/v3/Core/tint'',
      p_summary = None,
      p_metadata = [''Nature'' \<mapsto> ''DataProperty'', ''Range'' \<mapsto> ''paint:hue'']\<rparr>"

definition item :: spdx_class where
  "item =
     \<lparr>c_name = ''Item'', c_ns = core, c_iri = ''https://rdf.spdx.org/v3/Core/Item'',
      c_summary = None, c_metadata = Map.empty,
      c_properties =
        [(''name'', \<lparr>fqname = ''/Core/name'', minCount = ''1'', maxCount = ''1''\<rparr>),
         (''label'', \<lparr>fqname = ''/Core/label'', minCount = ''1'', maxCount = ''*''\<rparr>),
         (''color'', \<lparr>fqname = ''/Core/color'', minCount = ''0'', maxCount = ''1''\<rparr>)]\<rparr>"

definition catalog :: model where
  "catalog =
     \<lparr>classes = [(''/Core/Item'', item)],
      properties = [(''/Core/name'', name_property), (''/Core/label'', label_property),
                    (''/Core/color'', color_property), (''/Core/tint'', tint_property)],
      vocabularies = [], model_datatypes = [], individuals = [], types = []\<rparr>"

section \<open>Properties of the inheritance walk\<close>

lemma id_display_name_qualified:
  "id_display_name fq pr = qualified_display_name (ns_name (p_ns pr)) (rsplit_last fq)"
  by (simp add: id_display_name_def qualified_display_name_def Let_def)

lemma id_names_Cons:
  assumes "map_of (properties m) (fqname cp) = Some pr" and "p_metadata pr ''Nature'' = Some nature"
  shows "id_names m ((p, cp) # ps) =
           (if nature = ''IdProperty'' then [id_display_name (fqname cp) pr] else []) @ id_names m ps"
  using assms by (simp add: id_names_def id_display_name_qualified)

lemma id_names_append: "id_names m (ps @ qs) = id_names m ps @ id_names m qs"
  by (simp add: id_names_def)

lemma id_scan_names:
  "id_scan m ps i = Inr r \<Longrightarrow> r = (if id_names m ps = [] then i else Some (last (id_names m ps)))"
proof (induction ps arbitrary: i)
  case Nil
  then show ?case by (simp add: id_names_def)
next
  case (Cons x ps)
  obtain p cp where x: "x = (p, cp)" by (cases x)
  from Cons.prems x obtain pr nature where
    pr: "map_of (properties m) (fqname cp) = Some pr" and
    nat: "p_metadata pr ''Nature'' = Some nature" and
    rest: "id_scan m ps (if nature = ''IdProperty'' then Some (id_display_name (fqname cp) pr) else i) = Inr r"
    by (auto split: option.splits)
  from Cons.IH[OF rest] show ?case
    unfolding x id_names_Cons[OF pr nat] by (simp split: if_splits)
qed

lemma walk_step_result:
  assumes "walk_step m a (r, i) = Inr (r', i')"
  shows "r' = (if r = None then c_metadata a ''Referenceable'' else r)"
    and "i' = (if i = None \<and> id_names m (c_properties a) \<noteq> []
               then Some (last (id_names m (c_properties a))) else i)"
proof -
  show "r' = (if r = None then c_metadata a ''Referenceable'' else r)"
    using assms by (auto simp: walk_step_def Let_def split: if_splits sum.splits)
  show "i' = (if i = None \<and> id_names m (c_properties a) \<noteq> []
               then Some (last (id_names m (c_properties a))) else i)"
  proof (cases "i = None \<and> c_properties a \<noteq> []")
    case True
    with assms obtain j where j: "id_scan m (c_properties a) None = Inr j" and "i' = j"
      by (auto simp: walk_step_def Let_def split: sum.splits)
    with id_scan_names[OF j] True show ?thesis by simp
  next
    case False
    with assms have "i' = i" by (auto simp: walk_step_def Let_def split: if_splits)
    with False show ?thesis by (auto simp: id_names_def)
  qed
qed

lemma walk_chain: "chain m c cs \<Longrightarrow> walk m c st = Some (walk_list m cs st)"
proof (induction arbitrary: st rule: chain.induct)
  case (chain_root c m)
  then show ?case by (subst walk.simps) (simp split: sum.splits)
next
  case (chain_step c m p cs)
  then show ?case by (subst walk.simps) (simp split: sum.splits)
qed

lemma walk_list_result:
  "walk_list m cs (r, i) = Inr (r', i') \<Longrightarrow>
     r' = (case r of Some v \<Rightarrow> Some v
           | None \<Rightarrow> (case List.map_filter (\<lambda>a. c_metadata a ''Referenceable'') cs of
                        [] \<Rightarrow> None | v # _ \<Rightarrow> Some v)) \<and>
     i' = (case i of Some v \<Rightarrow> Some v | None \<Rightarrow> first_id_name m cs)"
proof (induction cs arbitrary: r i)
  case Nil
  then show ?case by (simp add: first_id_name_def split: option.splits)
next
  case (Cons a cs)
  from Cons.prems obtain r1 i1 where
    step: "walk_step m a (r, i) = Inr (r1, i1)" and rest: "walk_list m cs (r1, i1) = Inr (r', i')"
    by (auto split: sum.splits)
  note s = walk_step_result[OF step] and ih = Cons.IH[OF rest]
  show ?case
    using ih unfolding s
    by (auto simp: first_id_name_def split: option.splits if_splits)
qed

lemma resolve_inherited_chain:
  assumes "chain m c cs"
  shows "resolve_inherited m c =
           Some (case walk_list m cs (None, None) of
                   Inl e \<Rightarrow> Inl e
                 | Inr (r, i) \<Rightarrow> Inr (case r of None \<Rightarrow> ''optional'' | Some v \<Rightarrow> v, i))"
  by (simp add: resolve_inherited_def walk_chain[OF assms] split: sum.splits)

lemma resolve_inherited_result:
  assumes ch: "chain m c cs" and res: "resolve_inherited m c = Some (Inr (r, i))"
  shows "r = nearest_referenceable cs" and "i = first_id_name m cs"
proof -
  from res obtain r0 where wl: "walk_list m cs (None, None) = Inr (r0, i)"
    and r: "r = (case r0 of None \<Rightarrow> ''optional'' | Some v \<Rightarrow> v)"
    unfolding resolve_inherited_chain[OF ch] by (auto split: sum.splits)
  from walk_list_result[OF wl] show "i = first_id_name m cs" by simp
  from walk_list_result[OF wl] r show "r = nearest_referenceable cs"
    by (auto simp: nearest_referenceable_def split: list.splits)
qed

subsection \<open>Scenario A, evaluated\<close>

lemma get_parent_person: "get_parent person scenario_A = Inr (Some agent)"
  by (simp add: get_parent_def person_def scenario_A_def startswith_def core_def)

lemma get_parent_agent: "get_parent agent scenario_A = Inr None"
  by (simp add: get_parent_def agent_def)

lemma chain_person: "chain scenario_A person [person, agent]"
  using get_parent_person get_parent_agent by (blast intro: chain.intros)

lemma walk_step_person: "walk_step scenario_A person (None, None) = Inr (None, None)"
  by (simp add: walk_step_def person_def)

lemma walk_step_agent:
  "walk_step scenario_A agent (None, None) = Inr (Some ''yes'', Some ''name'')"
  by (simp add: walk_step_def agent_def scenario_A_def name_property_def id_display_name_def
        core_def rsplit_last_def)

lemma resolve_person: "resolve_inherited scenario_A person = Some (Inr (''yes'', Some ''name''))"
  by (simp add: resolve_inherited_chain[OF chain_person] walk_step_person walk_step_agent)

text \<open>
  C1. For a class whose parent chain is finite and free of cycles (\<open>chain m c cs\<close>), the
  walk returns, and when it returns a result (no lookup raised), the referenceable value
  is the \<open>Referenceable\<close> metadata of the nearest class of the chain that declares one,
  \<open>"optional"\<close> when none does, and the identifying-property name is that of the first
  class of the chain that declares a property of nature \<open>IdProperty\<close>, bare in namespace
  \<open>Core\<close> and prefixed by the lower-cased namespace name and an underscore otherwise.
  In Scenario A, \<open>Person\<close> resolves to \<open>"yes"\<close> and \<open>"name"\<close>.
\<close>

theorem walker_resolves_nearest_ancestor:
  "(\<forall>m c cs. chain m c cs \<longrightarrow>
      (\<exists>res. resolve_inherited m c = Some res) \<and>
      (\<forall>r i. resolve_inherited m c = Some (Inr (r, i)) \<longrightarrow>
         r = nearest_referenceable cs \<and> i = first_id_name m cs)) \<and>
   resolve_inherited scenario_A person = Some (Inr (''yes'', Some ''name''))"
proof (intro conjI allI impI)
  fix m c cs assume "chain m c cs"
  then show "\<exists>res. resolve_inherited m c = Some res"
    by (simp add: resolve_inherited_chain)
next
  fix m c cs r i
  assume "chain m c cs" and "resolve_inherited m c = Some (Inr (r, i))"
  then show "r = nearest_referenceable cs" and "i = first_id_name m cs"
    by (rule resolve_inherited_result)+
next
  show "resolve_inherited scenario_A person = Some (Inr (''yes'', Some ''name''))"
    by (rule resolve_person)
qed

theorem walker_resolves_nearest_ancestor_witness:
  "chain scenario_A person [person, agent] \<and>
   nearest_referenceable [person, agent] = ''yes'' \<and>
   first_id_name scenario_A [person, agent] = Some ''name''"
  using walker_resolves_nearest_ancestor chain_person by metis

subsection \<open>Several identifying properties in one class\<close>

lemma id_scan_last_wins:
  assumes scan: "id_scan m (ps @ (p, cp) # qs) i = Inr r"
      and pr: "map_of (properties m) (fqname cp) = Some pr"
      and nat: "p_metadata pr ''Nature'' = Some ''IdProperty''"
      and later: "id_names m qs = []"
  shows "r = Some (id_display_name (fqname cp) pr)"
proof -
  have "id_names m (ps @ (p, cp) # qs) = id_names m ps @ [id_display_name (fqname cp) pr]"
    using later by (simp add: id_names_append id_names_Cons[OF pr nat])
  with id_scan_names[OF scan] show ?thesis by simp
qed

lemma get_parent_thing: "get_parent thing two_ids = Inr None"
  by (simp add: get_parent_def thing_def)

lemma lower_Software: "lower ''Software'' = ''software''"
  by code_simp

lemma walk_step_thing:
  "walk_step two_ids thing (None, None) = Inr (None, Some ''software_b'')"
  by (simp add: walk_step_def thing_def two_ids_def key_a_def key_b_def id_display_name_def
        core_def software_def rsplit_last_def lower_Software)

lemma resolve_thing: "resolve_inherited two_ids thing = Some (Inr (''optional'', Some ''software_b''))"
  by (simp add: resolve_inherited_chain[OF chain_root[OF get_parent_thing]] walk_step_thing)

text \<open>
  C10. When the first class of the chain that declares an identifying property declares
  several, the resolved name is that of the last one in declaration order: for a chain
  \<open>pre @ a # post\<close> where no class of \<open>pre\<close> declares an identifying property and the
  declared properties of \<open>a\<close> are \<open>ps @ (p, cp) # qs\<close> with \<open>cp\<close> identifying and none
  after it, the walk resolves the display name of \<open>cp\<close>, whatever \<open>ps\<close> holds.
\<close>

theorem last_id_property_overwrites:
  assumes "chain m c (pre @ a # post)"
      and "\<forall>b \<in> set pre. id_names m (c_properties b) = []"
      and "c_properties a = ps @ (p, cp) # qs"
      and "map_of (properties m) (fqname cp) = Some pr"
      and "p_metadata pr ''Nature'' = Some ''IdProperty''"
      and "id_names m qs = []"
      and "resolve_inherited m c = Some (Inr (r, i))"
  shows "i = Some (id_display_name (fqname cp) pr)"
proof -
  have names: "id_names m (c_properties a) = id_names m ps @ [id_display_name (fqname cp) pr]"
    using assms(3,6) by (simp add: id_names_append id_names_Cons[OF assms(4,5)])
  have "filter (\<lambda>b. id_names m (c_properties b) \<noteq> []) (pre @ a # post) =
          a # filter (\<lambda>b. id_names m (c_properties b) \<noteq> []) post"
    using assms(2) names by (simp add: filter_empty_conv[THEN iffD2])
  then have "first_id_name m (pre @ a # post) = Some (last (id_names m (c_properties a)))"
    by (simp add: first_id_name_def)
  with resolve_inherited_result(2)[OF assms(1,7)] names show ?thesis by simp
qed

theorem last_id_property_overwrites_witness:
  "resolve_inherited two_ids thing = Some (Inr (''optional'', Some ''software_b'')) \<and>
   id_display_name ''/Software/b'' key_b = ''software_b'' \<and>
   id_names two_ids (c_properties thing) = [''a'', ''software_b'']"
proof -
  have ch: "chain two_ids thing ([] @ thing # [])"
    using chain_root[OF get_parent_thing] by simp
  have props: "c_properties thing =
      [(''a'', \<lparr>fqname = ''/Core/a'', minCount = ''1'', maxCount = ''1''\<rparr>)] @
      (''b'', \<lparr>fqname = ''/Software/b'', minCount = ''1'', maxCount = ''1''\<rparr>) # []"
    by (simp add: thing_def)
  have look: "map_of (properties two_ids)
      (fqname \<lparr>fqname = ''/Software/b'', minCount = ''1'', maxCount = ''1''\<rparr>) = Some key_b"
    by (simp add: two_ids_def)
  have nat: "p_metadata key_b ''Nature'' = Some ''IdProperty''"
    by (simp add: key_b_def)
  have nm: "id_names two_ids (c_properties thing) = [''a'', ''software_b'']"
    by (simp add: id_names_def thing_def two_ids_def key_a_def key_b_def
          qualified_display_name_def core_def software_def rsplit_last_def lower_Software)
  have "Some ''software_b'' = Some (id_display_name
      (fqname \<lparr>fqname = ''/Software/b'', minCount = ''1'', maxCount = ''1''\<rparr>) key_b)"
    by (rule last_id_property_overwrites[OF ch _ props look nat _ resolve_thing])
       (simp_all add: id_names_def)
  with resolve_thing nm show ?thesis by simp
qed

subsection \<open>Termination of the walk\<close>

lemma parent_of_in_classes: "parent_of m d p \<Longrightarrow> p \<in> snd ` set (classes m)"
  by (auto simp: parent_of_def get_parent_def Let_def split: option.splits if_splits
           dest!: map_of_SomeD intro: rev_image_eqI)

lemma reach_in_classes:
  "(parent_of m)\<^sup>*\<^sup>* c d \<Longrightarrow> d = c \<or> d \<in> snd ` set (classes m)"
  by (induction rule: rtranclp_induct) (auto dest: parent_of_in_classes)

lemma finite_up_rel: "finite (up_rel m c)"
proof -
  have "up_rel m c \<subseteq> (snd ` set (classes m)) \<times> insert c (snd ` set (classes m))"
    using reach_in_classes[of m c] parent_of_in_classes[of m] by (auto simp: up_rel_def)
  then show ?thesis by (rule finite_subset) simp
qed

lemma up_rel_trancl:
  "(x, y) \<in> (up_rel m c)\<^sup>+ \<Longrightarrow> (parent_of m)\<^sup>+\<^sup>+ y x \<and> (parent_of m)\<^sup>*\<^sup>* c y"
proof (induction rule: trancl_induct)
  case (base y)
  then show ?case by (auto simp: up_rel_def)
next
  case (step y z)
  then have "parent_of m z y" "(parent_of m)\<^sup>*\<^sup>* c z" by (auto simp: up_rel_def)
  with step.IH show ?case by (meson tranclp_into_tranclp2 tranclp.intros)
qed

lemma wf_up_rel:
  assumes "\<forall>d. (parent_of m)\<^sup>*\<^sup>* c d \<longrightarrow> \<not> (parent_of m)\<^sup>+\<^sup>+ d d"
  shows "wf (up_rel m c)"
proof (rule finite_acyclic_wf[OF finite_up_rel])
  show "acyclic (up_rel m c)"
    unfolding acyclic_def using assms up_rel_trancl[of _ _ m c] by blast
qed

lemma chain_exists:
  assumes ex: "\<forall>d. (parent_of m)\<^sup>*\<^sup>* c d \<longrightarrow> get_parent d m \<noteq> Inl KeyError"
      and ac: "\<forall>d. (parent_of m)\<^sup>*\<^sup>* c d \<longrightarrow> \<not> (parent_of m)\<^sup>+\<^sup>+ d d"
  shows "(parent_of m)\<^sup>*\<^sup>* c d \<Longrightarrow> \<exists>cs. chain m d cs"
proof (induction d rule: wf_induct_rule[OF wf_up_rel[OF ac]])
  case (1 d)
  show ?case
  proof (cases "get_parent d m")
    case (Inl e)
    with ex "1.prems" show ?thesis
      by (cases e) (auto simp: get_parent_def Let_def split: option.splits if_splits)
  next
    case (Inr po)
    show ?thesis
    proof (cases po)
      case None
      with Inr show ?thesis by (blast intro: chain.intros)
    next
      case (Some p)
      with Inr have pd: "parent_of m d p" by (simp add: parent_of_def)
      with "1.prems" have "(p, d) \<in> up_rel m c" and "(parent_of m)\<^sup>*\<^sup>* c p"
        by (auto simp: up_rel_def)
      with "1.IH" obtain cs where "chain m p cs" by blast
      with Inr Some show ?thesis by (blast intro: chain.intros)
    qed
  qed
qed

lemma chain_shape:
  "chain m c cs \<Longrightarrow> cs \<noteq> [] \<and> hd cs = c \<and> get_parent (last cs) m = Inr None \<and>
     (\<forall>d \<in> set (butlast cs). \<exists>p. get_parent d m = Inr (Some p))"
  by (induction rule: chain.induct) auto

lemma reach_person:
  "(parent_of scenario_A)\<^sup>*\<^sup>* person d \<Longrightarrow> d = person \<or> d = agent"
  by (induction rule: rtranclp_induct)
     (auto simp: parent_of_def get_parent_person get_parent_agent)

lemma agent_neq_person: "agent \<noteq> person"
  by (simp add: agent_def person_def)

lemma no_cycle_agent: "\<not> (parent_of scenario_A)\<^sup>+\<^sup>+ agent d"
  by (auto dest!: tranclpD simp: parent_of_def get_parent_agent)

lemma no_cycle_person: "\<not> (parent_of scenario_A)\<^sup>+\<^sup>+ person person"
proof
  assume "(parent_of scenario_A)\<^sup>+\<^sup>+ person person"
  then obtain z where "parent_of scenario_A person z" and r: "(parent_of scenario_A)\<^sup>*\<^sup>* z person"
    by (auto dest!: tranclpD)
  then have "z = agent" by (simp add: parent_of_def get_parent_person)
  with r have "(parent_of scenario_A)\<^sup>*\<^sup>* agent person" by simp
  then show False
    using agent_neq_person no_cycle_agent by (auto dest: rtranclpD)
qed

text \<open>
  C9. When every parent referenced from \<open>c\<close> onwards exists in \<open>classes\<close> and no class
  reachable from \<open>c\<close> reaches itself again, the walk from \<open>c\<close> returns: it visits a finite
  chain \<open>cs\<close> starting at \<open>c\<close>, every class of which but the last has a parent, stops at the
  last one, the first class with no parent reference, and its outcome is that of the loop
  body applied along \<open>cs\<close>.
\<close>

theorem walk_terminates:
  assumes "\<forall>d. (parent_of m)\<^sup>*\<^sup>* c d \<longrightarrow> get_parent d m \<noteq> Inl KeyError"
      and "\<forall>d. (parent_of m)\<^sup>*\<^sup>* c d \<longrightarrow> \<not> (parent_of m)\<^sup>+\<^sup>+ d d"
  shows "\<exists>cs. chain m c cs \<and> hd cs = c \<and> get_parent (last cs) m = Inr None \<and>
              (\<forall>d \<in> set (butlast cs). \<exists>p. get_parent d m = Inr (Some p)) \<and>
              walk m c st = Some (walk_list m cs st)"
proof -
  from chain_exists[OF assms, of c] obtain cs where ch: "chain m c cs" by blast
  with chain_shape[OF ch] walk_chain[OF ch] show ?thesis by blast
qed

theorem walk_terminates_witness:
  "\<exists>cs. chain scenario_A person cs \<and> hd cs = person \<and>
        get_parent (last cs) scenario_A = Inr None \<and>
        walk scenario_A person (None, None) = Some (walk_list scenario_A cs (None, None))"
proof -
  have ex: "\<forall>d. (parent_of scenario_A)\<^sup>*\<^sup>* person d \<longrightarrow> get_parent d scenario_A \<noteq> Inl KeyError"
    using reach_person get_parent_person get_parent_agent by fastforce
  have ac: "\<forall>d. (parent_of scenario_A)\<^sup>*\<^sup>* person d \<longrightarrow> \<not> (parent_of scenario_A)\<^sup>+\<^sup>+ d d"
    using reach_person no_cycle_person no_cycle_agent by blast
  from walk_terminates[OF ex ac, of "(None, None)"] show ?thesis by blast
qed


section \<open>Properties of the graph builder\<close>

subsection \<open>One property shape\<close>

lemmas node_defs =
  RDF_type_def RDF_Property_def RDFS_Class_def RDFS_comment_def RDFS_subClassOf_def
  RDFS_range_def RDFS_label_def OWL_Ontology_def OWL_versionIRI_def OWL_Class_def
  OWL_ObjectProperty_def OWL_DatatypeProperty_def OWL_NamedIndividual_def OWL_sameAs_def
  SH_NodeShape_def SH_property_def SH_path_def SH_class_def SH_pattern_def SH_datatype_def
  SH_minCount_def SH_maxCount_def SPDXS_referenceable_def SPDXS_idPropertyName_def

lemma shape_range_triples:
  "shape_range m bnode pr rng = Inr (rs, lg) \<Longrightarrow>
     \<forall>t \<in> set rs. fst t = bnode \<and> fst (snd t) \<in> {SH_class, SH_pattern, SH_datatype}"
  by (auto simp: shape_range_def Let_def split: option.splits prod.splits)

lemma shape_counts_triples:
  "shape_counts bnode cp = Inr cs \<Longrightarrow>
     \<forall>t \<in> set cs. fst t = bnode \<and> fst (snd t) \<in> {SH_minCount, SH_maxCount}"
  by (auto simp: shape_counts_def Let_def split: sum.splits if_splits)

lemma shape_counts_min:
  "shape_counts bnode cp = Inr cs \<Longrightarrow>
     (bnode, SH_minCount, ob) \<in> set cs \<longleftrightarrow>
       (\<exists>n. py_int (minCount cp) = Inr n \<and> n \<noteq> 0 \<and> ob = IntLiteral n)"
  by (auto simp: shape_counts_def Let_def SH_minCount_def SH_maxCount_def split: sum.splits if_splits)

lemma shape_counts_max:
  "shape_counts bnode cp = Inr cs \<Longrightarrow>
     (bnode, SH_maxCount, ob) \<in> set cs \<longleftrightarrow>
       (maxCount cp \<noteq> ''*'' \<and> (\<exists>n. py_int (maxCount cp) = Inr n \<and> ob = IntLiteral n))"
  by (auto simp: shape_counts_def Let_def SH_minCount_def SH_maxCount_def split: sum.splits if_splits)

lemma property_shape_parts:
  assumes "property_shape m node bnode pr cp = Inr (ts, lg)"
  obtains rng rs cs where "p_metadata pr ''Range'' = Some rng"
    and "shape_range m bnode pr rng = Inr (rs, lg)" and "shape_counts bnode cp = Inr cs"
    and "ts = [(node, SH_property, bnode), (bnode, SH_path, URIRef (p_iri pr))] @ rs @ cs"
  using assms by (auto simp: property_shape_def split: option.splits sum.splits)

lemma property_shape_min:
  assumes "property_shape m node bnode pr cp = Inr (ts, lg)"
  shows "(bnode, SH_minCount, ob) \<in> set ts \<longleftrightarrow>
           (\<exists>n. py_int (minCount cp) = Inr n \<and> n \<noteq> 0 \<and> ob = IntLiteral n)"
proof -
  from assms obtain rng rs cs where rs: "shape_range m bnode pr rng = Inr (rs, lg)"
    and cs: "shape_counts bnode cp = Inr cs"
    and ts: "ts = [(node, SH_property, bnode), (bnode, SH_path, URIRef (p_iri pr))] @ rs @ cs"
    by (rule property_shape_parts)
  have "(bnode, SH_minCount, ob) \<notin> set rs"
    using shape_range_triples[OF rs] by (auto simp: node_defs)
  then have "(bnode, SH_minCount, ob) \<in> set ts \<longleftrightarrow> (bnode, SH_minCount, ob) \<in> set cs"
    unfolding ts by (auto simp: node_defs)
  with shape_counts_min[OF cs] show ?thesis by simp
qed

lemma property_shape_max:
  assumes "property_shape m node bnode pr cp = Inr (ts, lg)"
  shows "(bnode, SH_maxCount, ob) \<in> set ts \<longleftrightarrow>
           (maxCount cp \<noteq> ''*'' \<and> (\<exists>n. py_int (maxCount cp) = Inr n \<and> ob = IntLiteral n))"
proof -
  from assms obtain rng rs cs where rs: "shape_range m bnode pr rng = Inr (rs, lg)"
    and cs: "shape_counts bnode cp = Inr cs"
    and ts: "ts = [(node, SH_property, bnode), (bnode, SH_path, URIRef (p_iri pr))] @ rs @ cs"
    by (rule property_shape_parts)
  have "(bnode, SH_maxCount, ob) \<notin> set rs"
    using shape_range_triples[OF rs] by (auto simp: node_defs)
  then have "(bnode, SH_maxCount, ob) \<in> set ts \<longleftrightarrow> (bnode, SH_maxCount, ob) \<in> set cs"
    unfolding ts by (auto simp: node_defs)
  with shape_counts_max[OF cs] show ?thesis by simp
qed

lemma property_shape_path:
  assumes "property_shape m node bnode pr cp = Inr (ts, lg)"
  shows "(s, SH_path, ob) \<in> set ts \<longleftrightarrow> s = bnode \<and> ob = URIRef (p_iri pr)"
proof -
  from assms obtain rng rs cs where rs: "shape_range m bnode pr rng = Inr (rs, lg)"
    and cs: "shape_counts bnode cp = Inr cs"
    and ts: "ts = [(node, SH_property, bnode), (bnode, SH_path, URIRef (p_iri pr))] @ rs @ cs"
    by (rule property_shape_parts)
  have "(s, SH_path, ob) \<notin> set rs" "(s, SH_path, ob) \<notin> set cs"
    using shape_range_triples[OF rs] shape_counts_triples[OF cs] by (auto simp: node_defs)
  then show ?thesis unfolding ts by (auto simp: node_defs)
qed

lemma property_shape_subjects:
  assumes "property_shape m node bnode pr cp = Inr (ts, lg)"
  shows "\<forall>t \<in> set ts. t = (node, SH_property, bnode) \<or> (fst t = bnode \<and> fst (snd t) \<noteq> SH_property \<and> fst (snd t) \<noteq> RDF_type)"
proof -
  from assms obtain rng rs cs where rs: "shape_range m bnode pr rng = Inr (rs, lg)"
    and cs: "shape_counts bnode cp = Inr cs"
    and ts: "ts = [(node, SH_property, bnode), (bnode, SH_path, URIRef (p_iri pr))] @ rs @ cs"
    by (rule property_shape_parts)
  show ?thesis
    using shape_range_triples[OF rs] shape_counts_triples[OF cs] unfolding ts
    by (auto simp: node_defs)
qed

subsection \<open>The shapes of one class\<close>

lemma class_shapes_Cons_cases:
  assumes "class_shapes m node ((p, cp) # ps) k = Inr (ts, lg, k')"
  obtains (skip) pr where "map_of (properties m) (fqname cp) = Some pr"
      and "p_metadata pr ''Nature'' = Some ''IdProperty''"
      and "class_shapes m node ps k = Inr (ts, lg, k')"
  | (shape) pr ts0 lg0 ts1 lg1 where "map_of (properties m) (fqname cp) = Some pr"
      and "p_metadata pr ''Nature'' \<noteq> None" and "p_metadata pr ''Nature'' \<noteq> Some ''IdProperty''"
      and "property_shape m node (BNode k) pr cp = Inr (ts0, lg0)"
      and "class_shapes m node ps (Suc k) = Inr (ts1, lg1, k')"
      and "ts = ts0 @ ts1" and "lg = lg0 @ lg1"
  using assms by (auto split: option.splits if_splits sum.splits)

lemma non_id_Cons_skip:
  "map_of (properties m) (fqname cp) = Some pr \<Longrightarrow> p_metadata pr ''Nature'' = Some ''IdProperty'' \<Longrightarrow>
     non_id_properties m ((p, cp) # ps) = non_id_properties m ps"
  by (simp add: non_id_properties_def)

lemma non_id_Cons_keep:
  "map_of (properties m) (fqname cp) = Some pr \<Longrightarrow> p_metadata pr ''Nature'' \<noteq> Some ''IdProperty'' \<Longrightarrow>
     non_id_properties m ((p, cp) # ps) = (p, cp) # non_id_properties m ps"
  by (simp add: non_id_properties_def)

lemma class_shapes_counter:
  "class_shapes m node ps k = Inr (ts, lg, k') \<Longrightarrow> k' = k + length (non_id_properties m ps)"
proof (induction ps arbitrary: k ts lg)
  case Nil
  then show ?case by (simp add: non_id_properties_def)
next
  case (Cons x ps)
  obtain p cp where x: "x = (p, cp)" by (cases x)
  from Cons.prems[unfolded x] show ?case
  proof (cases rule: class_shapes_Cons_cases)
    case (skip pr)
    with Cons.IH[OF skip(3)] show ?thesis by (simp add: x non_id_Cons_skip)
  next
    case (shape pr ts0 lg0 ts1 lg1)
    with Cons.IH[OF shape(5)] show ?thesis by (simp add: x non_id_Cons_keep)
  qed
qed

lemma class_shapes_subjects:
  "class_shapes m (URIRef u) ps k = Inr (ts, lg, k') \<Longrightarrow>
     \<forall>t \<in> set ts. (\<exists>x. t = (URIRef u, SH_property, BNode x) \<and> k \<le> x \<and> x < k') \<or>
                  (\<exists>x. fst t = BNode x \<and> k \<le> x \<and> x < k' \<and>
                       fst (snd t) \<noteq> SH_property \<and> fst (snd t) \<noteq> RDF_type)"
proof (induction ps arbitrary: k ts lg)
  case Nil
  then show ?case by simp
next
  case (Cons x ps)
  obtain p cp where x: "x = (p, cp)" by (cases x)
  from Cons.prems[unfolded x] show ?case
  proof (cases rule: class_shapes_Cons_cases)
    case (skip pr)
    with Cons.IH[OF skip(3)] show ?thesis by simp
  next
    case (shape pr ts0 lg0 ts1 lg1)
    have le: "Suc k \<le> k'" using class_shapes_counter[OF shape(5)] by simp
    have a: "\<forall>t \<in> set ts0. (\<exists>x. t = (URIRef u, SH_property, BNode x) \<and> k \<le> x \<and> x < k') \<or>
                  (\<exists>x. fst t = BNode x \<and> k \<le> x \<and> x < k' \<and>
                       fst (snd t) \<noteq> SH_property \<and> fst (snd t) \<noteq> RDF_type)"
      using property_shape_subjects[OF shape(4)] le by fastforce
    have b: "\<forall>t \<in> set ts1. (\<exists>x. t = (URIRef u, SH_property, BNode x) \<and> k \<le> x \<and> x < k') \<or>
                  (\<exists>x. fst t = BNode x \<and> k \<le> x \<and> x < k' \<and>
                       fst (snd t) \<noteq> SH_property \<and> fst (snd t) \<noteq> RDF_type)"
      using Cons.IH[OF shape(5)] by (meson Suc_leD)
    from a b show ?thesis unfolding shape(6) by auto
  qed
qed

lemma property_shape_nodes:
  assumes "property_shape m (URIRef u) (BNode k) pr cp = Inr (ts, lg)"
  shows "shape_nodes ts (URIRef u) = [BNode k]"
proof -
  from assms obtain rng rs cs where rs: "shape_range m (BNode k) pr rng = Inr (rs, lg)"
    and cs: "shape_counts (BNode k) cp = Inr cs"
    and ts: "ts = [(URIRef u, SH_property, BNode k), (BNode k, SH_path, URIRef (p_iri pr))] @ rs @ cs"
    by (rule property_shape_parts)
  have "filter (\<lambda>t. fst t = URIRef u \<and> fst (snd t) = SH_property) rs = []"
       "filter (\<lambda>t. fst t = URIRef u \<and> fst (snd t) = SH_property) cs = []"
    using shape_range_triples[OF rs] shape_counts_triples[OF cs]
    by (auto simp: filter_empty_conv)
  then show ?thesis unfolding ts shape_nodes_def by simp
qed

lemma shape_nodes_append: "shape_nodes (xs @ ys) n = shape_nodes xs n @ shape_nodes ys n"
  by (simp add: shape_nodes_def)

lemma class_shapes_nodes:
  "class_shapes m (URIRef u) ps k = Inr (ts, lg, k') \<Longrightarrow>
     shape_nodes ts (URIRef u) = map BNode [k..<k']"
proof (induction ps arbitrary: k ts lg)
  case Nil
  then show ?case by (simp add: shape_nodes_def)
next
  case (Cons x ps)
  obtain p cp where x: "x = (p, cp)" by (cases x)
  from Cons.prems[unfolded x] show ?case
  proof (cases rule: class_shapes_Cons_cases)
    case (skip pr)
    with Cons.IH[OF skip(3)] show ?thesis by simp
  next
    case (shape pr ts0 lg0 ts1 lg1)
    have le: "Suc k \<le> k'" using class_shapes_counter[OF shape(5)] by simp
    then have "[k..<k'] = k # [Suc k..<k']" by (simp add: upt_conv_Cons)
    with property_shape_nodes[OF shape(4)] Cons.IH[OF shape(5)] show ?thesis
      unfolding shape(6) by (simp add: shape_nodes_append)
  qed
qed

lemma class_shapes_at:
  "class_shapes m (URIRef u) ps k = Inr (ts, lg, k') \<Longrightarrow> j < length (non_id_properties m ps) \<Longrightarrow>
     \<exists>pr tsj lgj.
        map_of (properties m) (fqname (snd (non_id_properties m ps ! j))) = Some pr \<and>
        p_metadata pr ''Nature'' \<noteq> Some ''IdProperty'' \<and>
        property_shape m (URIRef u) (BNode (k + j)) pr (snd (non_id_properties m ps ! j)) = Inr (tsj, lgj) \<and>
        set tsj \<subseteq> set ts \<and> (\<forall>t \<in> set ts. fst t = BNode (k + j) \<longrightarrow> t \<in> set tsj)"
proof (induction ps arbitrary: k ts lg j)
  case Nil
  then show ?case by (simp add: non_id_properties_def)
next
  case (Cons x ps)
  obtain p cp where x: "x = (p, cp)" by (cases x)
  from Cons.prems(1)[unfolded x] show ?case
  proof (cases rule: class_shapes_Cons_cases)
    case (skip pr)
    with Cons.IH[OF skip(3), of j] Cons.prems(2) show ?thesis
      by (simp add: x non_id_Cons_skip)
  next
    case (shape pr ts0 lg0 ts1 lg1)
    note keep = non_id_Cons_keep[OF shape(1,3), of p ps]
    show ?thesis
    proof (cases j)
      case 0
      have "\<forall>t \<in> set ts1. fst t \<noteq> BNode k"
        using class_shapes_subjects[OF shape(5)] by fastforce
      then have "\<forall>t \<in> set ts. fst t = BNode (k + j) \<longrightarrow> t \<in> set ts0"
        unfolding shape(6) 0 by auto
      with shape(1,3,4,6) show ?thesis unfolding x keep 0 by auto
    next
      case (Suc j')
      with Cons.prems(2) have "j' < length (non_id_properties m ps)"
        by (simp add: x keep)
      from Cons.IH[OF shape(5) this] obtain pr' tsj lgj where
        a: "map_of (properties m) (fqname (snd (non_id_properties m ps ! j'))) = Some pr'"
        and a': "p_metadata pr' ''Nature'' \<noteq> Some ''IdProperty''"
        and b: "property_shape m (URIRef u) (BNode (Suc k + j')) pr' (snd (non_id_properties m ps ! j')) = Inr (tsj, lgj)"
        and c: "set tsj \<subseteq> set ts1" and d: "\<forall>t \<in> set ts1. fst t = BNode (Suc k + j') \<longrightarrow> t \<in> set tsj"
        by blast
      have "\<forall>t \<in> set ts0. fst t \<noteq> BNode (Suc k + j')"
        using property_shape_subjects[OF shape(4)] by fastforce
      with d have "\<forall>t \<in> set ts. fst t = BNode (k + j) \<longrightarrow> t \<in> set tsj"
        unfolding shape(6) Suc by auto
      with a a' b c show ?thesis unfolding x keep Suc shape(6) by auto
    qed
  qed
qed

subsection \<open>Everything emitted for one class\<close>

lemma comment_stmts_triples:
  "\<forall>t \<in> set (comment_stmts node s). fst t = node \<and> fst (snd t) = RDFS_comment"
  by (auto simp: comment_stmts_def split: option.splits)

lemma class_stmts_parts:
  assumes "class_stmts m c k = Some (Inr (ts, lg, k'))"
  obtains pre sh where "ts = pre @ sh"
    and "\<forall>t \<in> set pre. fst t = URIRef (c_iri c) \<and>
           ((fst (snd t) = RDF_type \<and> snd (snd t) \<in> {RDFS_Class, OWL_Class}) \<or>
            fst (snd t) \<in> {RDFS_comment, RDFS_subClassOf, SPDXS_referenceable, SPDXS_idPropertyName})"
    and "(c_properties c = [] \<and> sh = [] \<and> k' = k \<and> lg = []) \<or>
         (c_properties c \<noteq> [] \<and>
          (\<exists>ts1. sh = (URIRef (c_iri c), RDF_type, SH_NodeShape) # ts1 \<and>
                 class_shapes m (URIRef (c_iri c)) (c_properties c) k = Inr (ts1, lg, k')))"
proof -
  from assms obtain parent referenceable id_property where
    gp: "get_parent c m = Inr parent" and
    ri: "resolve_inherited m c = Some (Inr (referenceable, id_property))"
    by (auto simp: class_stmts_def Let_def split: sum.splits option.splits)
  define pre where "pre = [(URIRef (c_iri c), RDF_type, RDFS_Class), (URIRef (c_iri c), RDF_type, OWL_Class)] @
      comment_stmts (URIRef (c_iri c)) (c_summary c) @
      (case parent of Some p \<Rightarrow> [(URIRef (c_iri c), RDFS_subClassOf, URIRef (c_iri p))] | None \<Rightarrow> []) @
      (URIRef (c_iri c), SPDXS_referenceable, Literal referenceable None) #
      (case id_property of Some i \<Rightarrow> [(URIRef (c_iri c), SPDXS_idPropertyName, Literal i None)] | None \<Rightarrow> [])"
  have pre_ok: "\<forall>t \<in> set pre. fst t = URIRef (c_iri c) \<and>
           ((fst (snd t) = RDF_type \<and> snd (snd t) \<in> {RDFS_Class, OWL_Class}) \<or>
            fst (snd t) \<in> {RDFS_comment, RDFS_subClassOf, SPDXS_referenceable, SPDXS_idPropertyName})"
    using comment_stmts_triples[of "URIRef (c_iri c)" "c_summary c"]
    unfolding pre_def by (auto split: option.splits)
  show ?thesis
  proof (cases "c_properties c = []")
    case True
    with assms gp ri have "ts = pre @ []" "k' = k" "lg = []"
      by (auto simp: class_stmts_def Let_def pre_def)
    with True pre_ok that show ?thesis by blast
  next
    case False
    with assms gp ri obtain ts1 where
      "class_shapes m (URIRef (c_iri c)) (c_properties c) k = Inr (ts1, lg, k')"
      "ts = pre @ (URIRef (c_iri c), RDF_type, SH_NodeShape) # ts1"
      by (auto simp: class_stmts_def Let_def pre_def split: sum.splits)
    with False pre_ok that show ?thesis by blast
  qed
qed

lemma class_stmts_nodeshape:
  assumes "class_stmts m c k = Some (Inr (ts, lg, k'))"
  shows "(URIRef (c_iri c), RDF_type, SH_NodeShape) \<in> set ts \<longleftrightarrow> c_properties c \<noteq> []"
proof -
  from assms obtain pre sh where ts: "ts = pre @ sh"
    and pre: "\<forall>t \<in> set pre. fst t = URIRef (c_iri c) \<and>
           ((fst (snd t) = RDF_type \<and> snd (snd t) \<in> {RDFS_Class, OWL_Class}) \<or>
            fst (snd t) \<in> {RDFS_comment, RDFS_subClassOf, SPDXS_referenceable, SPDXS_idPropertyName})"
    and sh: "(c_properties c = [] \<and> sh = [] \<and> k' = k \<and> lg = []) \<or>
         (c_properties c \<noteq> [] \<and>
          (\<exists>ts1. sh = (URIRef (c_iri c), RDF_type, SH_NodeShape) # ts1 \<and>
                 class_shapes m (URIRef (c_iri c)) (c_properties c) k = Inr (ts1, lg, k')))"
    by (rule class_stmts_parts)
  have "(URIRef (c_iri c), RDF_type, SH_NodeShape) \<notin> set pre"
    using pre by (fastforce simp: node_defs)
  with sh show ?thesis unfolding ts by auto
qed

lemma class_stmts_counter:
  assumes "class_stmts m c k = Some (Inr (ts, lg, k'))"
  shows "k' = k + length (non_id_properties m (c_properties c))"
proof -
  from assms obtain pre sh where "ts = pre @ sh" and
    sh: "(c_properties c = [] \<and> sh = [] \<and> k' = k \<and> lg = []) \<or>
         (c_properties c \<noteq> [] \<and>
          (\<exists>ts1. sh = (URIRef (c_iri c), RDF_type, SH_NodeShape) # ts1 \<and>
                 class_shapes m (URIRef (c_iri c)) (c_properties c) k = Inr (ts1, lg, k')))"
    by (rule class_stmts_parts)
  then show ?thesis
    by (auto simp: non_id_properties_def dest: class_shapes_counter)
qed

lemma class_stmts_subjects:
  assumes "class_stmts m c k = Some (Inr (ts, lg, k'))"
  shows "\<forall>t \<in> set ts. fst t = URIRef (c_iri c) \<or> (\<exists>x. fst t = BNode x \<and> k \<le> x \<and> x < k')"
proof -
  from assms obtain pre sh where ts: "ts = pre @ sh"
    and pre: "\<forall>t \<in> set pre. fst t = URIRef (c_iri c) \<and>
           ((fst (snd t) = RDF_type \<and> snd (snd t) \<in> {RDFS_Class, OWL_Class}) \<or>
            fst (snd t) \<in> {RDFS_comment, RDFS_subClassOf, SPDXS_referenceable, SPDXS_idPropertyName})"
    and sh: "(c_properties c = [] \<and> sh = [] \<and> k' = k \<and> lg = []) \<or>
         (c_properties c \<noteq> [] \<and>
          (\<exists>ts1. sh = (URIRef (c_iri c), RDF_type, SH_NodeShape) # ts1 \<and>
                 class_shapes m (URIRef (c_iri c)) (c_properties c) k = Inr (ts1, lg, k')))"
    by (rule class_stmts_parts)
  have "\<forall>t \<in> set sh. fst t = URIRef (c_iri c) \<or> (\<exists>x. fst t = BNode x \<and> k \<le> x \<and> x < k')"
    using sh by (auto dest!: class_shapes_subjects)
  with pre show ?thesis unfolding ts by auto
qed

lemma class_stmts_shape_nodes:
  assumes "class_stmts m c k = Some (Inr (ts, lg, k'))"
  shows "shape_nodes ts (URIRef (c_iri c)) = map BNode [k..<k']"
proof -
  from assms obtain pre sh where ts: "ts = pre @ sh"
    and pre: "\<forall>t \<in> set pre. fst t = URIRef (c_iri c) \<and>
           ((fst (snd t) = RDF_type \<and> snd (snd t) \<in> {RDFS_Class, OWL_Class}) \<or>
            fst (snd t) \<in> {RDFS_comment, RDFS_subClassOf, SPDXS_referenceable, SPDXS_idPropertyName})"
    and sh: "(c_properties c = [] \<and> sh = [] \<and> k' = k \<and> lg = []) \<or>
         (c_properties c \<noteq> [] \<and>
          (\<exists>ts1. sh = (URIRef (c_iri c), RDF_type, SH_NodeShape) # ts1 \<and>
                 class_shapes m (URIRef (c_iri c)) (c_properties c) k = Inr (ts1, lg, k')))"
    by (rule class_stmts_parts)
  have "shape_nodes pre (URIRef (c_iri c)) = []"
    unfolding shape_nodes_def using pre by (fastforce simp: filter_empty_conv node_defs)
  moreover have "shape_nodes sh (URIRef (c_iri c)) = map BNode [k..<k']"
  proof -
    from sh consider "sh = []" "k' = k"
      | ts1 where "sh = (URIRef (c_iri c), RDF_type, SH_NodeShape) # ts1"
          "class_shapes m (URIRef (c_iri c)) (c_properties c) k = Inr (ts1, lg, k')"
      by blast
    then show ?thesis
    proof cases
      case 1
      then show ?thesis by (simp add: shape_nodes_def)
    next
      case 2
      have "shape_nodes sh (URIRef (c_iri c)) = shape_nodes ts1 (URIRef (c_iri c))"
        unfolding 2(1) shape_nodes_def by (simp add: node_defs)
      with class_shapes_nodes[OF 2(2)] show ?thesis by simp
    qed
  qed
  ultimately show ?thesis unfolding ts by (simp add: shape_nodes_append)
qed

lemma class_stmts_at:
  assumes "class_stmts m c k = Some (Inr (ts, lg, k'))"
      and "j < length (non_id_properties m (c_properties c))"
  shows "\<exists>pr tsj lgj.
        map_of (properties m) (fqname (snd (non_id_properties m (c_properties c) ! j))) = Some pr \<and>
        p_metadata pr ''Nature'' \<noteq> Some ''IdProperty'' \<and>
        property_shape m (URIRef (c_iri c)) (BNode (k + j)) pr
          (snd (non_id_properties m (c_properties c) ! j)) = Inr (tsj, lgj) \<and>
        set tsj \<subseteq> set ts \<and> (\<forall>t \<in> set ts. fst t = BNode (k + j) \<longrightarrow> t \<in> set tsj)"
proof -
  from assms(1) obtain pre sh where ts: "ts = pre @ sh"
    and pre: "\<forall>t \<in> set pre. fst t = URIRef (c_iri c) \<and>
           ((fst (snd t) = RDF_type \<and> snd (snd t) \<in> {RDFS_Class, OWL_Class}) \<or>
            fst (snd t) \<in> {RDFS_comment, RDFS_subClassOf, SPDXS_referenceable, SPDXS_idPropertyName})"
    and sh: "(c_properties c = [] \<and> sh = [] \<and> k' = k \<and> lg = []) \<or>
         (c_properties c \<noteq> [] \<and>
          (\<exists>ts1. sh = (URIRef (c_iri c), RDF_type, SH_NodeShape) # ts1 \<and>
                 class_shapes m (URIRef (c_iri c)) (c_properties c) k = Inr (ts1, lg, k')))"
    by (rule class_stmts_parts)
  from assms(2) have "c_properties c \<noteq> []" by (auto simp: non_id_properties_def)
  with sh obtain ts1 where sh1: "sh = (URIRef (c_iri c), RDF_type, SH_NodeShape) # ts1"
    and cs: "class_shapes m (URIRef (c_iri c)) (c_properties c) k = Inr (ts1, lg, k')"
    by blast
  from class_shapes_at[OF cs assms(2)] obtain pr tsj lgj where
    a: "map_of (properties m) (fqname (snd (non_id_properties m (c_properties c) ! j))) = Some pr"
    and a': "p_metadata pr ''Nature'' \<noteq> Some ''IdProperty''"
    and b: "property_shape m (URIRef (c_iri c)) (BNode (k + j)) pr
          (snd (non_id_properties m (c_properties c) ! j)) = Inr (tsj, lgj)"
    and c: "set tsj \<subseteq> set ts1" and d: "\<forall>t \<in> set ts1. fst t = BNode (k + j) \<longrightarrow> t \<in> set tsj"
    by blast
  have "\<forall>t \<in> set ts. fst t = BNode (k + j) \<longrightarrow> t \<in> set tsj"
    using pre d unfolding ts sh1 by auto
  with a a' b c show ?thesis unfolding ts sh1 by auto
qed

subsection \<open>The loop over the classes\<close>

lemma classes_loop_Cons_cases:
  assumes "classes_loop m ((fq, c) # cs) k = Some (Inr (ts, lg, k'))"
  obtains ts0 lg0 k0 ts1 lg1 where "class_stmts m c k = Some (Inr (ts0, lg0, k0))"
    and "classes_loop m cs k0 = Some (Inr (ts1, lg1, k'))"
    and "ts = ts0 @ ts1" and "lg = lg0 @ lg1"
  using assms by (auto split: option.splits sum.splits)

lemma classes_loop_mono:
  "classes_loop m cs k = Some (Inr (ts, lg, k')) \<Longrightarrow> k \<le> k'"
proof (induction cs arbitrary: k ts lg)
  case Nil
  then show ?case by simp
next
  case (Cons x cs)
  obtain fq c where x: "x = (fq, c)" by (cases x)
  from Cons.prems[unfolded x] obtain ts0 lg0 k0 ts1 lg1 where
    a: "class_stmts m c k = Some (Inr (ts0, lg0, k0))"
    and b: "classes_loop m cs k0 = Some (Inr (ts1, lg1, k'))"
    by (rule classes_loop_Cons_cases)
  from class_stmts_counter[OF a] Cons.IH[OF b] show ?case by simp
qed

lemma classes_loop_subjects:
  "classes_loop m cs k = Some (Inr (ts, lg, k')) \<Longrightarrow>
     \<forall>t \<in> set ts. (\<exists>u. fst t = URIRef u) \<or> (\<exists>x. fst t = BNode x \<and> k \<le> x \<and> x < k')"
proof (induction cs arbitrary: k ts lg)
  case Nil
  then show ?case by simp
next
  case (Cons x cs)
  obtain fq c where x: "x = (fq, c)" by (cases x)
  from Cons.prems[unfolded x] obtain ts0 lg0 k0 ts1 lg1 where
    a: "class_stmts m c k = Some (Inr (ts0, lg0, k0))"
    and b: "classes_loop m cs k0 = Some (Inr (ts1, lg1, k'))"
    and ts: "ts = ts0 @ ts1"
    by (rule classes_loop_Cons_cases)
  have le: "k \<le> k0" "k0 \<le> k'"
    using class_stmts_counter[OF a] classes_loop_mono[OF b] by simp_all
  have "\<forall>t \<in> set ts0. (\<exists>u. fst t = URIRef u) \<or> (\<exists>x. fst t = BNode x \<and> k \<le> x \<and> x < k')"
    using class_stmts_subjects[OF a] le by fastforce
  moreover have "\<forall>t \<in> set ts1. (\<exists>u. fst t = URIRef u) \<or> (\<exists>x. fst t = BNode x \<and> k \<le> x \<and> x < k')"
    using Cons.IH[OF b] le by fastforce
  ultimately show ?case unfolding ts by auto
qed

lemma classes_loop_member:
  "classes_loop m cs k = Some (Inr (ts, lg, k')) \<Longrightarrow> (fq, c) \<in> set cs \<Longrightarrow>
     \<exists>k1 ts1 lg1 k2. class_stmts m c k1 = Some (Inr (ts1, lg1, k2)) \<and> k \<le> k1 \<and> k2 \<le> k' \<and>
        set ts1 \<subseteq> set ts \<and>
        (\<forall>t \<in> set ts. \<forall>x. fst t = BNode x \<and> k1 \<le> x \<and> x < k2 \<longrightarrow> t \<in> set ts1)"
proof (induction cs arbitrary: k ts lg)
  case Nil
  then show ?case by simp
next
  case (Cons y cs)
  obtain fq' c' where y: "y = (fq', c')" by (cases y)
  from Cons.prems(1)[unfolded y] obtain ts0 lg0 k0 ts1 lg1 where
    a: "class_stmts m c' k = Some (Inr (ts0, lg0, k0))"
    and b: "classes_loop m cs k0 = Some (Inr (ts1, lg1, k'))"
    and ts: "ts = ts0 @ ts1"
    by (rule classes_loop_Cons_cases)
  have le: "k \<le> k0" "k0 \<le> k'"
    using class_stmts_counter[OF a] classes_loop_mono[OF b] by simp_all
  show ?case
  proof (cases "(fq, c) = y")
    case True
    then have c: "c' = c" using y by simp
    have "\<forall>t \<in> set ts1. \<forall>x. fst t = BNode x \<and> k \<le> x \<and> x < k0 \<longrightarrow> t \<in> set ts0"
      using classes_loop_subjects[OF b] by fastforce
    then have "\<forall>t \<in> set ts. \<forall>x. fst t = BNode x \<and> k \<le> x \<and> x < k0 \<longrightarrow> t \<in> set ts0"
      unfolding ts by auto
    with a le show ?thesis unfolding c ts
      by (intro exI[of _ k] exI[of _ ts0] exI[of _ lg0] exI[of _ k0]) auto
  next
    case False
    with Cons.prems(2) have "(fq, c) \<in> set cs" by simp
    from Cons.IH[OF b this] obtain k1 tsc lgc k2 where
      d: "class_stmts m c k1 = Some (Inr (tsc, lgc, k2))" and e: "set tsc \<subseteq> set ts1"
      and bounds: "k0 \<le> k1" "k2 \<le> k'"
      and f: "\<forall>t \<in> set ts1. \<forall>x. fst t = BNode x \<and> k1 \<le> x \<and> x < k2 \<longrightarrow> t \<in> set tsc"
      by blast
    have "\<forall>t \<in> set ts0. \<forall>x. fst t = BNode x \<and> k1 \<le> x \<and> x < k2 \<longrightarrow> t \<in> set tsc"
      using class_stmts_subjects[OF a] bounds by fastforce
    with f have "\<forall>t \<in> set ts. \<forall>x. fst t = BNode x \<and> k1 \<le> x \<and> x < k2 \<longrightarrow> t \<in> set tsc"
      unfolding ts by auto
    with d e bounds le show ?thesis unfolding ts
      by (intro exI[of _ k1] exI[of _ tsc] exI[of _ lgc] exI[of _ k2]) auto
  qed
qed

subsection \<open>The other passes and the whole graph\<close>

lemma set_graph_add_all: "set (graph_add_all g ts) = set g \<union> set ts"
  unfolding graph_add_all_def
  by (induction ts arbitrary: g) (auto simp: graph_add_def)

lemma distinct_graph_add_all: "distinct g \<Longrightarrow> distinct (graph_add_all g ts)"
  unfolding graph_add_all_def
  by (induction ts arbitrary: g) (auto simp: graph_add_def)

lemma collect_Cons_cases:
  assumes "collect f (x # xs) = Inr (ts, lg)"
  obtains ts0 lg0 ts1 lg1 where "f x = Inr (ts0, lg0)" and "collect f xs = Inr (ts1, lg1)"
    and "ts = ts0 @ ts1" and "lg = lg0 @ lg1"
  using assms by (auto split: sum.splits)

lemma collect_member:
  "collect f xs = Inr (ts, lg) \<Longrightarrow> t \<in> set ts \<Longrightarrow>
     \<exists>x ts0 lg0. x \<in> set xs \<and> f x = Inr (ts0, lg0) \<and> t \<in> set ts0"
proof (induction xs arbitrary: ts lg)
  case Nil
  then show ?case by simp
next
  case (Cons x xs)
  from Cons.prems(1) obtain ts0 lg0 ts1 lg1 where
    a: "f x = Inr (ts0, lg0)" and b: "collect f xs = Inr (ts1, lg1)" and ts: "ts = ts0 @ ts1"
    by (rule collect_Cons_cases)
  from Cons.prems(2) ts consider "t \<in> set ts0" | "t \<in> set ts1" by auto
  then show ?case
  proof cases
    case 1
    with a show ?thesis by auto
  next
    case 2
    from Cons.IH[OF b 2] show ?thesis by auto
  qed
qed

lemma collect_item:
  "collect f xs = Inr (ts, lg) \<Longrightarrow> x \<in> set xs \<Longrightarrow>
     \<exists>ts0 lg0. f x = Inr (ts0, lg0) \<and> set ts0 \<subseteq> set ts \<and> set lg0 \<subseteq> set lg"
proof (induction xs arbitrary: ts lg)
  case Nil
  then show ?case by simp
next
  case (Cons y xs)
  from Cons.prems(1) obtain ts0 lg0 ts1 lg1 where
    a: "f y = Inr (ts0, lg0)" and b: "collect f xs = Inr (ts1, lg1)"
    and ts: "ts = ts0 @ ts1" and lg: "lg = lg0 @ lg1"
    by (rule collect_Cons_cases)
  show ?case
  proof (cases "x = y")
    case True
    with a show ?thesis unfolding ts lg by auto
  next
    case False
    with Cons.prems(2) have "x \<in> set xs" by simp
    from Cons.IH[OF b this] show ?thesis unfolding ts lg by auto
  qed
qed

lemma gen_rdf_ontology_parts:
  assumes "gen_rdf_ontology m = Some (Inr (g, lg))"
  obtains cts clg k pts plg its ilg where
    "classes_loop m (classes m) 0 = Some (Inr (cts, clg, k))"
    and "collect (property_stmts m) (map snd (properties m)) = Inr (pts, plg)"
    and "collect (individual_stmts m) (map snd (individuals m)) = Inr (its, ilg)"
    and "set g = set ontology_header \<union> set cts \<union> set pts \<union>
                 set (concat (map (vocabulary_stmts \<circ> snd) (vocabularies m))) \<union> set its"
    and "lg = clg @ plg @ ilg"
proof -
  from assms obtain cts clg k pts plg its ilg where
    a: "classes_loop m (classes m) 0 = Some (Inr (cts, clg, k))"
    and b: "collect (property_stmts m) (map snd (properties m)) = Inr (pts, plg)"
    and c: "collect (individual_stmts m) (map snd (individuals m)) = Inr (its, ilg)"
    and g: "g = graph_add_all [] (ontology_header @ cts @ pts @
                concat (map (vocabulary_stmts \<circ> snd) (vocabularies m)) @ its)"
    and lg: "lg = clg @ plg @ ilg"
    by (auto simp: gen_rdf_ontology_def Let_def split: option.splits sum.splits)
  have "set g = set ontology_header \<union> set cts \<union> set pts \<union>
                 set (concat (map (vocabulary_stmts \<circ> snd) (vocabularies m))) \<union> set its"
    unfolding g set_graph_add_all by (simp add: Un_assoc)
  with a b c lg that show ?thesis by blast
qed

subsection \<open>The form of the emitted statements\<close>

lemma header_form:
  "t \<in> set ontology_header \<Longrightarrow>
     fst t = URIRef URI_BASE \<and>
     ((fst (snd t) = RDF_type \<and> snd (snd t) = OWL_Ontology) \<or> fst (snd t) = OWL_versionIRI)"
  by (auto simp: ontology_header_def)

lemma property_range_form:
  "property_range m node p rng = Inr (ts, lg) \<Longrightarrow> t \<in> set ts \<Longrightarrow>
     fst t = node \<and> fst (snd t) = RDFS_range"
  by (auto simp: property_range_def Let_def split: if_splits option.splits prod.splits)

lemma property_stmts_form:
  assumes "property_stmts m p = Inr (ts, lg)" and "t \<in> set ts"
  shows "p_metadata p ''Nature'' \<noteq> Some ''IdProperty'' \<and> fst t = URIRef (p_iri p) \<and>
     ((fst (snd t) = RDF_type \<and>
       snd (snd t) \<in> {RDF_Property, OWL_ObjectProperty, OWL_DatatypeProperty}) \<or>
      fst (snd t) = RDFS_comment \<or> fst (snd t) = RDFS_range)"
proof -
  define node where "node = URIRef (p_iri p)"
  from assms have nid: "p_metadata p ''Nature'' \<noteq> Some ''IdProperty''"
    by (auto simp: property_stmts_def split: option.splits if_splits)
  from assms obtain nature where n: "p_metadata p ''Nature'' = Some nature"
    by (auto simp: property_stmts_def split: option.splits)
  with nid have n': "nature \<noteq> ''IdProperty''" by simp
  from assms n n' obtain rng where rg: "p_metadata p ''Range'' = Some rng"
    by (auto simp: property_stmts_def Let_def split: option.splits)
  from assms n n' rg obtain rs where
    r: "property_range m node p rng = Inr (rs, lg)"
    unfolding node_def
    by (auto simp: property_stmts_def Let_def split: sum.splits)
  have ts: "ts = (node, RDF_type, RDF_Property) # comment_stmts node (p_summary p) @
                   (if nature = ''ObjectProperty'' then [(node, RDF_type, OWL_ObjectProperty)]
                    else if nature = ''DataProperty'' then [(node, RDF_type, OWL_DatatypeProperty)]
                    else []) @ rs"
    using assms(1) n n' rg r unfolding node_def
    by (simp add: property_stmts_def Let_def)
  from assms(2) ts consider "t = (node, RDF_type, RDF_Property)"
    | "t \<in> set (comment_stmts node (p_summary p))"
    | "t = (node, RDF_type, OWL_ObjectProperty)" | "t = (node, RDF_type, OWL_DatatypeProperty)"
    | "t \<in> set rs"
    by (auto split: if_splits)
  then have "fst t = node \<and>
     ((fst (snd t) = RDF_type \<and>
       snd (snd t) \<in> {RDF_Property, OWL_ObjectProperty, OWL_DatatypeProperty}) \<or>
      fst (snd t) = RDFS_comment \<or> fst (snd t) = RDFS_range)"
  proof cases
    case 2
    with comment_stmts_triples[of node "p_summary p"] show ?thesis by simp
  next
    case 5
    with property_range_form[OF r] show ?thesis by simp
  qed simp_all
  with nid show ?thesis unfolding node_def by simp
qed

lemma vocabulary_stmts_form:
  assumes "t \<in> set (vocabulary_stmts v)"
  shows "(fst t = URIRef (v_iri v) \<and>
           ((fst (snd t) = RDF_type \<and> snd (snd t) \<in> {RDFS_Class, OWL_Class}) \<or>
            fst (snd t) = RDFS_comment)) \<or>
         (\<exists>e d. (e, d) \<in> set (v_entries v) \<and> fst t = URIRef (v_iri v @ ''/'' @ e) \<and>
            ((fst (snd t) = RDF_type \<and> snd (snd t) \<in> {OWL_NamedIndividual, URIRef (v_iri v)}) \<or>
             fst (snd t) \<in> {RDFS_label, RDFS_comment}))"
  using assms comment_stmts_triples[of "URIRef (v_iri v)" "v_summary v"]
  by (auto simp: vocabulary_stmts_def entry_stmts_def Let_def)

lemma individual_stmts_form:
  assumes "individual_stmts m i = Inr (ts, lg)" and "t \<in> set ts"
  shows "fst t = URIRef (i_iri i) \<and>
     ((fst (snd t) = RDF_type \<and> snd (snd t) = OWL_NamedIndividual) \<or>
      fst (snd t) \<in> {RDFS_comment, RDFS_range, OWL_sameAs})"
  using assms comment_stmts_triples[of "URIRef (i_iri i)" "i_summary i"]
  by (auto simp: individual_stmts_def Let_def split: option.splits if_splits)

lemma class_shapes_form:
  "class_shapes m node ps k = Inr (ts, lg, k') \<Longrightarrow> t \<in> set ts \<Longrightarrow>
     \<exists>p cp pr x tsj lgj. (p, cp) \<in> set ps \<and> map_of (properties m) (fqname cp) = Some pr \<and>
        p_metadata pr ''Nature'' \<noteq> Some ''IdProperty'' \<and>
        property_shape m node (BNode x) pr cp = Inr (tsj, lgj) \<and> t \<in> set tsj"
proof (induction ps arbitrary: k ts lg)
  case Nil
  then show ?case by simp
next
  case (Cons y ps)
  obtain p cp where y: "y = (p, cp)" by (cases y)
  have lift: "\<exists>p cp pr x tsj lgj. (p, cp) \<in> set (y # ps) \<and> map_of (properties m) (fqname cp) = Some pr \<and>
        p_metadata pr ''Nature'' \<noteq> Some ''IdProperty'' \<and>
        property_shape m node (BNode x) pr cp = Inr (tsj, lgj) \<and> t \<in> set tsj"
    if "\<exists>p cp pr x tsj lgj. (p, cp) \<in> set ps \<and> map_of (properties m) (fqname cp) = Some pr \<and>
        p_metadata pr ''Nature'' \<noteq> Some ''IdProperty'' \<and>
        property_shape m node (BNode x) pr cp = Inr (tsj, lgj) \<and> t \<in> set tsj"
  proof -
    from that obtain p' cp' pr x tsj lgj where "(p', cp') \<in> set ps"
      "map_of (properties m) (fqname cp') = Some pr" "p_metadata pr ''Nature'' \<noteq> Some ''IdProperty''"
      "property_shape m node (BNode x) pr cp' = Inr (tsj, lgj)" "t \<in> set tsj" by blast
    then show ?thesis
      by (intro exI[of _ p'] exI[of _ cp'] exI[of _ pr] exI[of _ x] exI[of _ tsj] exI[of _ lgj]) simp
  qed
  from Cons.prems(1)[unfolded y] show ?case
  proof (cases rule: class_shapes_Cons_cases)
    case (skip pr)
    from lift[OF Cons.IH[OF skip(3) Cons.prems(2)]] show ?thesis .
  next
    case (shape pr ts0 lg0 ts1 lg1)
    from Cons.prems(2) shape(6) consider "t \<in> set ts0" | "t \<in> set ts1" by auto
    then show ?thesis
    proof cases
      case 1
      with shape(1,3,4) show ?thesis unfolding y
        by (intro exI[of _ p] exI[of _ cp] exI[of _ pr] exI[of _ k] exI[of _ ts0] exI[of _ lg0]) simp
    next
      case 2
      from lift[OF Cons.IH[OF shape(5) 2]] show ?thesis .
    qed
  qed
qed

lemma class_stmts_form:
  assumes "class_stmts m c k = Some (Inr (ts, lg, k'))" and "t \<in> set ts"
  shows "(fst t = URIRef (c_iri c) \<and>
           ((fst (snd t) = RDF_type \<and> snd (snd t) \<in> {RDFS_Class, OWL_Class, SH_NodeShape}) \<or>
            fst (snd t) \<in> {RDFS_comment, RDFS_subClassOf, SPDXS_referenceable, SPDXS_idPropertyName})) \<or>
         (\<exists>p cp pr x tsj lgj. (p, cp) \<in> set (c_properties c) \<and>
            map_of (properties m) (fqname cp) = Some pr \<and>
            p_metadata pr ''Nature'' \<noteq> Some ''IdProperty'' \<and>
            property_shape m (URIRef (c_iri c)) (BNode x) pr cp = Inr (tsj, lgj) \<and> t \<in> set tsj)"
proof -
  from assms(1) obtain pre sh where ts: "ts = pre @ sh"
    and pre: "\<forall>t \<in> set pre. fst t = URIRef (c_iri c) \<and>
           ((fst (snd t) = RDF_type \<and> snd (snd t) \<in> {RDFS_Class, OWL_Class}) \<or>
            fst (snd t) \<in> {RDFS_comment, RDFS_subClassOf, SPDXS_referenceable, SPDXS_idPropertyName})"
    and sh: "(c_properties c = [] \<and> sh = [] \<and> k' = k \<and> lg = []) \<or>
         (c_properties c \<noteq> [] \<and>
          (\<exists>ts1. sh = (URIRef (c_iri c), RDF_type, SH_NodeShape) # ts1 \<and>
                 class_shapes m (URIRef (c_iri c)) (c_properties c) k = Inr (ts1, lg, k')))"
    by (rule class_stmts_parts)
  from assms(2) ts consider "t \<in> set pre" | "t \<in> set sh" by auto
  then show ?thesis
  proof cases
    case 1
    with pre show ?thesis by auto
  next
    case 2
    with sh obtain ts1 where sh1: "sh = (URIRef (c_iri c), RDF_type, SH_NodeShape) # ts1"
      and cs: "class_shapes m (URIRef (c_iri c)) (c_properties c) k = Inr (ts1, lg, k')"
      by auto
    from 2 sh1 consider "t = (URIRef (c_iri c), RDF_type, SH_NodeShape)" | "t \<in> set ts1" by auto
    then show ?thesis
    proof cases
      case 1
      then show ?thesis by simp
    next
      case 2
      from class_shapes_form[OF cs 2] show ?thesis by blast
    qed
  qed
qed

lemma classes_loop_origin:
  "classes_loop m cs k = Some (Inr (ts, lg, k')) \<Longrightarrow> t \<in> set ts \<Longrightarrow>
     \<exists>fq c k1 ts1 lg1 k2. (fq, c) \<in> set cs \<and>
        class_stmts m c k1 = Some (Inr (ts1, lg1, k2)) \<and> t \<in> set ts1"
proof (induction cs arbitrary: k ts lg)
  case Nil
  then show ?case by simp
next
  case (Cons y cs)
  obtain fq c where y: "y = (fq, c)" by (cases y)
  from Cons.prems(1)[unfolded y] obtain ts0 lg0 k0 ts1 lg1 where
    a: "class_stmts m c k = Some (Inr (ts0, lg0, k0))"
    and b: "classes_loop m cs k0 = Some (Inr (ts1, lg1, k'))"
    and ts: "ts = ts0 @ ts1"
    by (rule classes_loop_Cons_cases)
  from Cons.prems(2) ts consider "t \<in> set ts0" | "t \<in> set ts1" by auto
  then show ?case
  proof cases
    case 1
    with a show ?thesis unfolding y
      by (intro exI[of _ fq] exI[of _ c] exI[of _ k] exI[of _ ts0] exI[of _ lg0] exI[of _ k0]) simp
  next
    case 2
    from Cons.IH[OF b 2] obtain fq' c' k1 tsc lgc k2 where "(fq', c') \<in> set cs"
      "class_stmts m c' k1 = Some (Inr (tsc, lgc, k2))" "t \<in> set tsc" by blast
    then show ?thesis
      by (intro exI[of _ fq'] exI[of _ c'] exI[of _ k1] exI[of _ tsc] exI[of _ lgc] exI[of _ k2]) simp
  qed
qed

lemma gen_bnode_triples:
  assumes cl: "classes_loop m (classes m) 0 = Some (Inr (cts, clg, k))"
      and pc: "collect (property_stmts m) (map snd (properties m)) = Inr (pts, plg)"
      and ic: "collect (individual_stmts m) (map snd (individuals m)) = Inr (its, ilg)"
      and g: "set g = set ontology_header \<union> set cts \<union> set pts \<union>
                 set (concat (map (vocabulary_stmts \<circ> snd) (vocabularies m))) \<union> set its"
      and t: "t \<in> set g" and b: "fst t = BNode x"
  shows "t \<in> set cts"
proof -
  have 1: "t \<notin> set ontology_header"
  proof
    assume "t \<in> set ontology_header"
    from header_form[OF this] b show False by simp
  qed
  have 2: "t \<notin> set pts"
  proof
    assume "t \<in> set pts"
    from collect_member[OF pc this] obtain p ts0 lg0 where
      "property_stmts m p = Inr (ts0, lg0)" "t \<in> set ts0" by blast
    from property_stmts_form[OF this] b show False by simp
  qed
  have 3: "t \<notin> set its"
  proof
    assume "t \<in> set its"
    from collect_member[OF ic this] obtain i ts0 lg0 where
      "individual_stmts m i = Inr (ts0, lg0)" "t \<in> set ts0" by blast
    from individual_stmts_form[OF this] b show False by simp
  qed
  have 4: "t \<notin> set (concat (map (vocabulary_stmts \<circ> snd) (vocabularies m)))"
  proof
    assume "t \<in> set (concat (map (vocabulary_stmts \<circ> snd) (vocabularies m)))"
    then obtain v where "t \<in> set (vocabulary_stmts v)" by auto
    from vocabulary_stmts_form[OF this] b show False by auto
  qed
  from t g 1 2 3 4 show ?thesis by simp
qed



end
